theory Spec2Isabelle
  imports Main "HOL-Library.Sublist"
begin

text \<open>
  A shallow embedding of \<^verbatim>\<open>display_agents.py\<close>: \<^verbatim>\<open>parse_readme\<close> reads a Markdown
  file line by line, keeps the category of the last recognized heading and collects the
  (name, description) pairs of the entry lines under it; \<^verbatim>\<open>display_agents\<close> prints
  the collected catalog. The definitions follow the source statement by statement;
  exceptions are values of type \<open>error\<close>, the file is an argument and standard output
  is a result.
\<close>

section \<open>Python strings\<close>

text \<open>
  A Python \<^verbatim>\<open>str\<close> is a sequence of Unicode code points: \<^verbatim>\<open>len\<close>, slicing,
  \<^verbatim>\<open>startswith\<close> and \<^verbatim>\<open>in\<close> all count code points, and the rocket of
  \<^verbatim>\<open>display_agents.py\<close> line 29 is the single code point U+1F680. A character is
  therefore a number (its code point, what \<^verbatim>\<open>ord\<close> returns), not an 8-bit
  \<open>char\<close>; the ASCII literals of the source are written with \<open>ascii\<close>.
\<close>

type_synonym codepoint = int

type_synonym str = "codepoint list"

definition ascii :: "string \<Rightarrow> str" where
  "ascii s = map of_char s"

definition newline :: codepoint where
  "newline = 10"

definition blank :: codepoint where
  "blank = 32"

definition rocket :: codepoint where
  \<comment> \<open>U+1F680, bytes F0 9F 9A 80 in the source file\<close>
  "rocket = 128640"

text \<open>\<^verbatim>\<open>s.startswith(p)\<close> and \<^verbatim>\<open>sub in s\<close> (substring containment).\<close>

definition startswith :: "str \<Rightarrow> str \<Rightarrow> bool" where
  "startswith s p = prefix p s"

definition contains :: "str \<Rightarrow> str \<Rightarrow> bool" where
  \<comment> \<open>\<open>contains s sub\<close> is Python's \<^verbatim>\<open>sub in s\<close>\<close>
  "contains s sub = sublist sub s"

text \<open>
  \<^verbatim>\<open>content.split('\n')\<close>: the pieces between the separators, in order; there is
  always at least one piece (\<^verbatim>\<open>''.split('\n') == ['']\<close>), so the first branch
  of the \<open>case\<close> below is never taken.
\<close>

fun py_split :: "codepoint \<Rightarrow> str \<Rightarrow> str list" where
  "py_split sep [] = [ [] ]"
| "py_split sep (c # cs) =
     (if c = sep then [] # py_split sep cs
      else (case py_split sep cs of
              [] \<Rightarrow> [ [c] ]
            | piece # pieces \<Rightarrow> (c # piece) # pieces))"

text \<open>
  \<^verbatim>\<open>str.isspace\<close> on one character, which is what \<^verbatim>\<open>str.strip()\<close> without an
  argument removes from both ends: the code points CPython classifies as whitespace.
\<close>

definition isspace :: "codepoint \<Rightarrow> bool" where
  "isspace c \<longleftrightarrow>
     c \<in> set [9, 10, 11, 12, 13, 28, 29, 30, 31, 32, 133, 160, 5760,
              8232, 8233, 8239, 8287, 12288]
     \<or> (8192 \<le> c \<and> c \<le> 8202)"

definition lstrip :: "str \<Rightarrow> str" where
  "lstrip s = dropWhile isspace s"

definition rstrip :: "str \<Rightarrow> str" where
  "rstrip s = rev (dropWhile isspace (rev s))"

definition strip :: "str \<Rightarrow> str" where
  "strip s = rstrip (lstrip s)"

section \<open>The regular expression of line 36\<close>

text \<open>
  The pattern \<^verbatim>\<open>- \*\*\[([^\]]+)\]\([^\)]+\)\*\* - (.+)\<close> is a sequence of literals
  and of greedy one-or-more repetitions of a character class, two of them capturing.
  \<open>re_seq\<close> is the backtracking matcher of \<^verbatim>\<open>re.match\<close> on such sequences: anchored
  at the start of the string, not at its end; a repetition first takes the longest run
  of characters of its class and gives characters back one at a time, never fewer than
  one, until the rest of the pattern matches. The result is the list of the captured
  groups, group 1 first.
\<close>

datatype re_item =
    Lit str
  | Plus "codepoint \<Rightarrow> bool"
  | GroupPlus "codepoint \<Rightarrow> bool"

fun re_seq :: "re_item list \<Rightarrow> str \<Rightarrow> str list option"
  and re_plus :: "bool \<Rightarrow> re_item list \<Rightarrow> str \<Rightarrow> nat \<Rightarrow> str list option" where
  "re_seq [] s = Some []"
| "re_seq (Lit l # its) s =
     (if prefix l s then re_seq its (drop (length l) s) else None)"
| "re_seq (Plus P # its) s = re_plus False its s (length (takeWhile P s))"
| "re_seq (GroupPlus P # its) s = re_plus True its s (length (takeWhile P s))"
| "re_plus cap its s 0 = None"
| "re_plus cap its s (Suc n) =
     (case re_seq its (drop (Suc n) s) of
        Some gs \<Rightarrow> Some (if cap then take (Suc n) s # gs else gs)
      | None \<Rightarrow> re_plus cap its s n)"

definition entry_pattern :: "re_item list" where
  "entry_pattern =
     [Lit (ascii ''- **[''),
      GroupPlus (\<lambda>c. c \<noteq> of_char (CHR '']'')),
      Lit (ascii '']('' ),
      Plus (\<lambda>c. c \<noteq> of_char (CHR '')'')),
      Lit (ascii '')** - ''),
      GroupPlus (\<lambda>c. c \<noteq> newline)]"

section \<open>The extractor: \<^verbatim>\<open>parse_readme\<close>\<close>

datatype error = KeyError | IndexError | OSError | UnicodeDecodeError

type_synonym entry = "str \<times> str"

text \<open>
  The dictionary \<^verbatim>\<open>agents\<close> keeps its keys in insertion order, which both the
  heading search and the presenter iterate, so it is an association list.
\<close>

type_synonym catalog = "(str \<times> entry list) list"

definition agents_literal :: catalog where
  "agents_literal =
     [(ascii ''Development & Architecture'', []),
      (ascii ''Language Specialists'', []),
      (ascii ''Infrastructure & Operations'', []),
      (ascii ''Quality & Security'', []),
      (ascii ''Data & AI'', []),
      (ascii ''Specialized Domains'', []),
      (ascii ''Documentation'', []),
      (ascii ''Business & Marketing'', []),
      (ascii ''SEO & Content Optimization'', [])]"

definition keys :: "catalog \<Rightarrow> str list" where
  "keys d = map fst d"

text \<open>\<^verbatim>\<open>agents[k].append(e)\<close>; a missing key raises \<^verbatim>\<open>KeyError\<close>.\<close>

fun dict_append :: "catalog \<Rightarrow> str \<Rightarrow> entry \<Rightarrow> error + catalog" where
  "dict_append [] k e = Inl KeyError"
| "dict_append ((k', es) # d) k e =
     (if k' = k then Inr ((k', es @ [e]) # d)
      else (case dict_append d k e of
              Inl err \<Rightarrow> Inl err
            | Inr d' \<Rightarrow> Inr ((k', es) # d')))"

text \<open>\<^verbatim>\<open>m.group(i)\<close> for \<open>i \<ge> 1\<close>; a group the pattern does not have raises \<^verbatim>\<open>IndexError\<close>.\<close>

definition group :: "str list \<Rightarrow> nat \<Rightarrow> error + str" where
  "group gs i = (if 1 \<le> i \<and> i \<le> length gs then Inr (gs ! (i - 1)) else Inl IndexError)"

record scan_state =
  agents :: catalog
  current_category :: "str option"

text \<open>The truth value of \<^verbatim>\<open>current_category\<close>: \<^verbatim>\<open>None\<close> and the empty string are false.\<close>

definition truthy :: "str option \<Rightarrow> bool" where
  "truthy c = (case c of None \<Rightarrow> False | Some s \<Rightarrow> s \<noteq> [])"

definition is_heading :: "str \<Rightarrow> bool" where
  "is_heading line \<longleftrightarrow>
     startswith line (ascii ''### '') \<and> \<not> startswith line (ascii ''### '' @ [rocket])"

definition entry_shaped :: "str \<Rightarrow> bool" where
  "entry_shaped line \<longleftrightarrow> startswith (strip line) (ascii ''- **['')"

text \<open>The body of the \<^verbatim>\<open>for line in ...\<close> loop, lines 29 to 40.\<close>

definition process_line :: "scan_state \<Rightarrow> str \<Rightarrow> error + scan_state" where
  "process_line st line =
     (if is_heading line then
        (case find (\<lambda>cat. contains line cat) (keys (agents st)) of
           Some cat \<Rightarrow> Inr (st\<lparr>current_category := Some cat\<rparr>)
         | None \<Rightarrow> Inr st)
      else if truthy (current_category st) \<and> entry_shaped line then
        (case re_seq entry_pattern (strip line) of
           None \<Rightarrow> Inr st
         | Some gs \<Rightarrow>
             (case group gs 1 of
                Inl err \<Rightarrow> Inl err
              | Inr agent_name \<Rightarrow>
                  (case group gs 2 of
                     Inl err \<Rightarrow> Inl err
                   | Inr agent_desc \<Rightarrow>
                       (case current_category st of
                          None \<Rightarrow> Inl KeyError
                        | Some cat \<Rightarrow>
                            (case dict_append (agents st) cat (agent_name, agent_desc) of
                               Inl err \<Rightarrow> Inl err
                             | Inr d \<Rightarrow> Inr (st\<lparr>agents := d\<rparr>))))))
      else Inr st)"

fun scan_lines :: "scan_state \<Rightarrow> str list \<Rightarrow> error + scan_state" where
  "scan_lines st [] = Inr st"
| "scan_lines st (line # rest) =
     (case process_line st line of
        Inl err \<Rightarrow> Inl err
      | Inr st' \<Rightarrow> scan_lines st' rest)"

definition initial_state :: scan_state where
  "initial_state = \<lparr>agents = agents_literal, current_category = None\<rparr>"

text \<open>
  The argument is what the program finds at \<^verbatim>\<open>/var/www/instructions/README.md\<close>:
  \<open>None\<close> when \<^verbatim>\<open>os.path.exists\<close> is false, \<open>Some content\<close> when the path is a
  readable text file and \<^verbatim>\<open>f.read()\<close> returns \<open>content\<close>. The result \<open>Inr None\<close> is
  the return value \<^verbatim>\<open>None\<close>.
\<close>

definition parse_readme :: "str option \<Rightarrow> error + catalog option" where
  "parse_readme file =
     (case file of
        None \<Rightarrow> Inr None
      | Some content \<Rightarrow>
          (case scan_lines initial_state (py_split newline content) of
             Inl err \<Rightarrow> Inl err
           | Inr st \<Rightarrow> Inr (Some (agents st))))"

section \<open>The presenter: \<^verbatim>\<open>display_agents\<close>\<close>

text \<open>
  Standard output is the list of the strings given to \<^verbatim>\<open>print\<close>, one element for
  each call, in order; \<^verbatim>\<open>print\<close> writes each of them followed by a newline.
\<close>

definition ljust :: "nat \<Rightarrow> str \<Rightarrow> str" where
  \<comment> \<open>the format specification \<^verbatim>\<open>{s:30}\<close> of a string: padded on the right, never cut\<close>
  "ljust w s = s @ replicate (w - length s) blank"

function wrap_lines :: "str \<Rightarrow> str list" where
  "wrap_lines remaining =
     (if remaining = [] then []
      else (ascii ''    '' @ ljust 30 (ascii '' '') @ ascii '' '' @ take 70 remaining)
           # wrap_lines (drop 70 remaining))"
  by pat_completeness auto
termination
  by (relation "measure length") auto

declare wrap_lines.simps [simp del]

definition bullet :: codepoint where
  \<comment> \<open>U+2022, bytes E2 80 A2\<close>
  "bullet = 8226"

text \<open>The prints of lines 59 to 64 for one entry.\<close>

definition print_entry :: "entry \<Rightarrow> str list" where
  "print_entry e =
     (case e of (agent_name, agent_desc) \<Rightarrow>
        (ascii ''  '' @ [bullet] @ ascii '' '' @ ljust 30 agent_name @ ascii '' ''
           @ take 70 agent_desc)
        # (if length agent_desc > 70 then wrap_lines (drop 70 agent_desc) else []))"

text \<open>The body of the loop over \<^verbatim>\<open>agents.items()\<close>, lines 55 to 64.\<close>

definition print_category :: "str \<times> entry list \<Rightarrow> str list" where
  "print_category item =
     (case item of (category, agent_list) \<Rightarrow>
        (if agent_list \<noteq> [] then
           [ [newline] @ ascii ''### '' @ category, replicate 40 (of_char (CHR ''-''))]
           @ concat (map print_entry agent_list)
         else []))"

definition no_data_message :: str where
  "no_data_message = ascii ''Unable to load agent information.''"

definition title_banner :: "str list" where
  \<comment> \<open>lines 51 and 52; U+1F4DA is the books sign\<close>
  "title_banner =
     [ [newline, 128218] @ ascii '' Available Claude Code Agents (75 total)'' @ [newline],
      replicate 80 (of_char (CHR ''=''))]"

definition trailer :: "str list" where
  \<comment> \<open>lines 66 to 73; U+1F4A1, U+1F4E6, U+26A1 and U+1F9E0 are the signs of the source\<close>
  "trailer =
     [ [newline] @ replicate 80 (of_char (CHR ''='')),
      [newline, 128161]
        @ ascii '' Usage: Mention an agent by name or let Claude auto-select based on context'',
      ascii ''   Example: '' @ [39] @ ascii ''Use code-reviewer to check my changes'' @ [39],
      [newline, 128230] @ ascii '' Model Distribution:'',
      ascii ''   '' @ [bullet] @ ascii '' '' @ [rocket] @ ascii '' Haiku (fast): 16 agents'',
      ascii ''   '' @ [bullet] @ ascii '' '' @ [9889] @ ascii '' Sonnet (balanced): 44 agents'',
      ascii ''   '' @ [bullet] @ ascii '' '' @ [129504] @ ascii '' Opus (powerful): 15 agents'',
      [] ]"

text \<open>
  \<^verbatim>\<open>not agents\<close> on the value \<^verbatim>\<open>parse_readme\<close> returned: true for \<^verbatim>\<open>None\<close> and for
  a dictionary without keys. Past that test the value is a dictionary, which
  \<open>the\<close> reads.
\<close>

definition falsy :: "catalog option \<Rightarrow> bool" where
  "falsy a = (case a of None \<Rightarrow> True | Some d \<Rightarrow> d = [])"

definition display_agents :: "str option \<Rightarrow> error + str list" where
  "display_agents file =
     (case parse_readme file of
        Inl err \<Rightarrow> Inl err
      | Inr a \<Rightarrow>
          (if falsy a then Inr [no_data_message]
           else Inr (title_banner @ concat (map print_category (the a)) @ trailer)))"

section \<open>A path that exists and cannot be read\<close>

text \<open>
  \<^verbatim>\<open>os.path.exists\<close> is also true for a directory, for a file that the process may
  not read and for a file whose bytes are not text in the encoding of the locale. For
  these \<^verbatim>\<open>open\<close> (line 11) or \<^verbatim>\<open>f.read()\<close> (line 12) raises; neither function
  catches the exception, so it leaves \<^verbatim>\<open>parse_readme\<close> and \<^verbatim>\<open>display_agents\<close>,
  and since \<^verbatim>\<open>parse_readme\<close> is called before the first \<^verbatim>\<open>print\<close> nothing has
  been printed. What is at the path is therefore one of three things, and on a text file
  and on a missing file the two functions are the ones above.
\<close>

datatype path_state =
    Absent
  | Unreadable error
  | Text str

definition parse_readme_path :: "path_state \<Rightarrow> error + catalog option" where
  "parse_readme_path p =
     (case p of
        Absent \<Rightarrow> parse_readme None
      | Unreadable err \<Rightarrow> Inl err
      | Text content \<Rightarrow> parse_readme (Some content))"

definition display_agents_path :: "path_state \<Rightarrow> error + str list" where
  "display_agents_path p =
     (case parse_readme_path p of
        Inl err \<Rightarrow> Inl err
      | Inr a \<Rightarrow>
          (if falsy a then Inr [no_data_message]
           else Inr (title_banner @ concat (map print_category (the a)) @ trailer)))"

section \<open>The extractor on an explicit store\<close>

text \<open>
  The values of the dictionary are list objects, and \<^verbatim>\<open>append\<close> changes a list
  in place. Whether one call of \<^verbatim>\<open>parse_readme\<close> can see what another has left
  behind depends on which objects the two share, so the extractor is given a second
  time, now on a store of list objects: \<open>new_list\<close> is the evaluation of \<^verbatim>\<open>[]\<close>,
  \<open>new_dict\<close> the evaluation of the dictionary literal of lines 14 to 24 (one new list
  for each key, in order), and a dictionary binds each key to the address of its list.
  The store that a call starts from holds whatever earlier calls have allocated.
\<close>

type_synonym address = nat

record heap =
  objects :: "address \<Rightarrow> entry list"
  next_free :: address

type_synonym dict_ref = "(str \<times> address) list"

definition new_list :: "heap \<Rightarrow> address \<times> heap" where
  "new_list h =
     (next_free h, \<lparr>objects = (objects h)(next_free h := []), next_free = Suc (next_free h)\<rparr>)"

fun new_dict :: "str list \<Rightarrow> heap \<Rightarrow> dict_ref \<times> heap" where
  "new_dict [] h = ([], h)"
| "new_dict (k # ks) h =
     (case new_list h of (a, h1) \<Rightarrow>
        (case new_dict ks h1 of (d, h2) \<Rightarrow> ((k, a) # d, h2)))"

definition dict_item :: "dict_ref \<Rightarrow> str \<Rightarrow> error + address" where
  "dict_item d k = (case map_of d k of None \<Rightarrow> Inl KeyError | Some a \<Rightarrow> Inr a)"

definition list_append :: "heap \<Rightarrow> address \<Rightarrow> entry \<Rightarrow> heap" where
  "list_append h a e = h\<lparr>objects := (objects h)(a := objects h a @ [e])\<rparr>"

record scan_state_h =
  store :: heap
  agents_ref :: dict_ref
  current_category_h :: "str option"

definition process_line_h :: "scan_state_h \<Rightarrow> str \<Rightarrow> error + scan_state_h" where
  "process_line_h st line =
     (if is_heading line then
        (case find (\<lambda>cat. contains line cat) (map fst (agents_ref st)) of
           Some cat \<Rightarrow> Inr (st\<lparr>current_category_h := Some cat\<rparr>)
         | None \<Rightarrow> Inr st)
      else if truthy (current_category_h st) \<and> entry_shaped line then
        (case re_seq entry_pattern (strip line) of
           None \<Rightarrow> Inr st
         | Some gs \<Rightarrow>
             (case group gs 1 of
                Inl err \<Rightarrow> Inl err
              | Inr agent_name \<Rightarrow>
                  (case group gs 2 of
                     Inl err \<Rightarrow> Inl err
                   | Inr agent_desc \<Rightarrow>
                       (case current_category_h st of
                          None \<Rightarrow> Inl KeyError
                        | Some cat \<Rightarrow>
                            (case dict_item (agents_ref st) cat of
                               Inl err \<Rightarrow> Inl err
                             | Inr a \<Rightarrow>
                                 Inr (st\<lparr>store :=
                                          list_append (store st) a (agent_name, agent_desc)\<rparr>))))))
      else Inr st)"

fun scan_lines_h :: "scan_state_h \<Rightarrow> str list \<Rightarrow> error + scan_state_h" where
  "scan_lines_h st [] = Inr st"
| "scan_lines_h st (line # rest) =
     (case process_line_h st line of
        Inl err \<Rightarrow> Inl err
      | Inr st' \<Rightarrow> scan_lines_h st' rest)"

definition parse_readme_h :: "heap \<Rightarrow> str option \<Rightarrow> error + (dict_ref option \<times> heap)" where
  "parse_readme_h h file =
     (case file of
        None \<Rightarrow> Inr (None, h)
      | Some content \<Rightarrow>
          (case new_dict (keys agents_literal) h of (d, h1) \<Rightarrow>
             (case scan_lines_h \<lparr>store = h1, agents_ref = d, current_category_h = None\<rparr>
                     (py_split newline content) of
                Inl err \<Rightarrow> Inl err
              | Inr st \<Rightarrow> Inr (Some (agents_ref st), store st))))"

section \<open>Notions of the statements and proofs\<close>

text \<open>
  The nine category names, in the order of the dictionary literal, and the read access
  \<^verbatim>\<open>agents[k]\<close> by which the statements look a sequence up.
\<close>

definition categories :: "str list" where
  "categories = keys agents_literal"

definition dict_get :: "catalog \<Rightarrow> str \<Rightarrow> entry list option" where
  "dict_get d k = map_of d k"

text \<open>
  The invariant of the loop: the keys are the category names, and the current category,
  when set, is one of them.
\<close>

definition well_formed :: "scan_state \<Rightarrow> bool" where
  "well_formed st \<longleftrightarrow>
     keys (agents st) = categories \<and> set_option (current_category st) \<subseteq> set categories"

text \<open>A heading that sets the current category: it qualifies and names a category.\<close>

definition recognized_heading :: "str \<Rightarrow> bool" where
  "recognized_heading line \<longleftrightarrow> is_heading line \<and> list_ex (\<lambda>cat. contains line cat) categories"

text \<open>
  The number of capturing groups of a pattern, and the fields of an entry line read from
  left to right without backtracking, which is what the matcher computes on
  \<open>entry_pattern\<close> (lemma \<open>re_seq_entry_pattern\<close>).
\<close>

fun groups_of :: "re_item list \<Rightarrow> nat" where
  "groups_of [] = 0"
| "groups_of (Lit l # its) = groups_of its"
| "groups_of (Plus P # its) = groups_of its"
| "groups_of (GroupPlus P # its) = Suc (groups_of its)"

definition entry_fields :: "str \<Rightarrow> (str \<times> str) option" where
  "entry_fields s =
     (if \<not> prefix (ascii ''- **['') s then None
      else let r1 = drop 5 s;
               name = takeWhile (\<lambda>c. c \<noteq> of_char (CHR '']'')) r1;
               r2 = dropWhile (\<lambda>c. c \<noteq> of_char (CHR '']'')) r1
           in if name = [] \<or> \<not> prefix (ascii '']('' ) r2 then None
              else let r3 = drop 2 r2;
                       link = takeWhile (\<lambda>c. c \<noteq> of_char (CHR '')'')) r3;
                       r4 = dropWhile (\<lambda>c. c \<noteq> of_char (CHR '')'')) r3
                   in if link = [] \<or> \<not> prefix (ascii '')** - '') r4 then None
                      else let desc = takeWhile (\<lambda>c. c \<noteq> newline) (drop 6 r4)
                           in if desc = [] then None else Some (name, desc))"

text \<open>
  The catalog that a dictionary of list addresses denotes in a store, and the state of
  the loop that a state on the store denotes.
\<close>

definition catalog_at :: "heap \<Rightarrow> dict_ref \<Rightarrow> catalog" where
  "catalog_at h d = map (\<lambda>(k, a). (k, objects h a)) d"

definition abstract :: "scan_state_h \<Rightarrow> scan_state" where
  "abstract st =
     \<lparr>agents = catalog_at (store st) (agents_ref st),
      current_category = current_category_h st\<rparr>"

section \<open>Trimming and splitting\<close>

lemma py_split_nonempty: "py_split sep s \<noteq> []"
  by (induction s) (auto split: list.splits)

lemma py_split_no_sep: "l \<in> set (py_split sep s) \<Longrightarrow> sep \<notin> set l"
  by (induction s arbitrary: l) (auto split: if_splits list.splits)

lemma rstrip_keep:
  assumes "\<not> isspace c"
  shows "rstrip (a @ c # b) = a @ c # rstrip b"
proof -
  have "dropWhile isspace (rev b @ c # rev a) =
          (if \<forall>x \<in> set (rev b). isspace x then c # rev a
           else dropWhile isspace (rev b) @ c # rev a)"
    using assms by (simp add: dropWhile_append)
  moreover have "dropWhile isspace (rev b) = []" if "\<forall>x \<in> set (rev b). isspace x"
    using that by simp
  ultimately show ?thesis
    by (auto simp: rstrip_def)
qed

lemma rstrip_blanks: "list_all isspace b \<Longrightarrow> rstrip b = []"
  by (simp add: rstrip_def list_all_iff)

lemma rstrip_append:
  assumes "rstrip b \<noteq> []"
  shows "rstrip (a @ b) = a @ rstrip b"
proof -
  have "\<not> (\<forall>x \<in> set (rev b). isspace x)"
    using assms by (auto simp: rstrip_def)
  then show ?thesis
    by (auto simp: rstrip_def dropWhile_append)
qed

lemma set_rstrip: "set (rstrip s) \<subseteq> set s"
  by (auto simp: rstrip_def dest: set_dropWhileD)

lemma lstrip_keep: "list_all isspace ws \<Longrightarrow> \<not> isspace c \<Longrightarrow> lstrip (ws @ c # b) = c # b"
  by (simp add: lstrip_def list_all_iff dropWhile_append)

lemma strip_keep:
  assumes "list_all isspace ws" and "\<not> isspace c" and "\<not> isspace c'"
  shows "strip (ws @ c # a @ c' # b) = c # a @ c' # rstrip b"
  using rstrip_keep [OF assms(3), of "c # a" b] lstrip_keep [OF assms(1,2)]
  by (simp add: strip_def)

lemma strip_first:
  assumes "\<not> isspace c"
  shows "strip (c # b) = c # rstrip b"
  using rstrip_keep [OF assms, of "[]" b] assms by (simp add: strip_def lstrip_def)

lemma not_isspace_ascii:
  "\<not> isspace (of_char (CHR ''#''))" "\<not> isspace (of_char (CHR ''-''))"
  "\<not> isspace (of_char (CHR ''[''))" "\<not> isspace (of_char (CHR ''(''))"
  "\<not> isspace (of_char (CHR '')''))"
  by (simp_all add: isspace_def)

section \<open>The category names and the dictionary\<close>

lemma categories_list:
  "categories =
     [ascii ''Development & Architecture'', ascii ''Language Specialists'',
      ascii ''Infrastructure & Operations'', ascii ''Quality & Security'',
      ascii ''Data & AI'', ascii ''Specialized Domains'', ascii ''Documentation'',
      ascii ''Business & Marketing'', ascii ''SEO & Content Optimization'']"
  by (simp add: categories_def keys_def agents_literal_def)

lemma length_categories: "length categories = 9"
  by (simp add: categories_list)

lemma distinct_categories: "distinct categories"
  unfolding categories_list by code_simp

lemma categories_nonempty: "[] \<notin> set categories"
  unfolding categories_list by code_simp

lemma dict_append_present:
  "k \<in> set (keys d) \<Longrightarrow> \<exists>d'. dict_append d k e = Inr d' \<and> keys d' = keys d"
proof (induction d k e rule: dict_append.induct)
  case (1 k e)
  then show ?case by (simp add: keys_def)
next
  case (2 k' es d k e)
  show ?case
  proof (cases "k' = k")
    case True
    then show ?thesis by (simp add: keys_def)
  next
    case False
    with 2 obtain d' where "dict_append d k e = Inr d'" "keys d' = keys d"
      by (auto simp: keys_def)
    with False show ?thesis by (simp add: keys_def)
  qed
qed

lemma dict_append_get:
  "dict_append d k e = Inr d' \<Longrightarrow>
     dict_get d' k = Some (the (dict_get d k) @ [e]) \<and> (\<forall>k'. k' \<noteq> k \<longrightarrow> dict_get d' k' = dict_get d k')"
  by (induction d k e arbitrary: d' rule: dict_append.induct)
     (auto simp: dict_get_def split: if_splits sum.splits)

lemma dict_get_present: "k \<in> set (keys d) \<Longrightarrow> \<exists>es. dict_get d k = Some es"
  by (cases "map_of d k") (auto simp: dict_get_def keys_def map_of_eq_None_iff)

section \<open>The pattern matches without backtracking\<close>

text \<open>
  Each repetition of the pattern is followed by a literal whose first character is
  outside its class ("]" after the name, ")" after the link), so only the longest run
  can be followed by a match, and the last repetition is followed by nothing. The
  matcher therefore computes \<open>entry_fields\<close>, which reads the line from left to right.
\<close>

lemma re_groups:
  "(re_seq its s = Some gs \<longrightarrow> length gs = groups_of its)"
  "(re_plus cap its s n = Some gs \<longrightarrow> length gs = groups_of its + (if cap then 1 else 0))"
  by (induction its s and cap its s n arbitrary: gs and gs rule: re_seq_re_plus.induct)
     (auto split: if_splits option.splits)

lemma entry_pattern_groups: "re_seq entry_pattern s = Some gs \<Longrightarrow> length gs = 2"
  using re_groups(1) [of entry_pattern s gs] by (simp add: entry_pattern_def)

lemma drop_in_takeWhile:
  assumes "k < length (takeWhile P s)"
  shows "\<exists>t. drop k s = (s ! k) # t \<and> P (s ! k)"
proof -
  have "k < length s"
    using assms length_takeWhile_le [of P s] by simp
  then have "drop k s = (s ! k) # drop (Suc k) s"
    by (simp add: Cons_nth_drop_Suc)
  moreover have "takeWhile P s ! k \<in> set (takeWhile P s)"
    using assms by simp
  then have "P (s ! k)"
    using assms by (auto simp: takeWhile_nth dest: set_takeWhileD)
  ultimately show ?thesis by blast
qed

lemma re_plus_before_excluded:
  assumes "\<not> P c" and "n \<le> length (takeWhile P s)"
  shows "re_plus cap (Lit (c # l) # its) s n =
           (if n = length (takeWhile P s) \<and> 0 < n then
              (case re_seq (Lit (c # l) # its) (drop n s) of
                 Some gs \<Rightarrow> Some (if cap then take n s # gs else gs)
               | None \<Rightarrow> None)
            else None)"
  using assms(2)
proof (induction n)
  case 0
  then show ?case by simp
next
  case (Suc n)
  then have IH: "re_plus cap (Lit (c # l) # its) s n = None"
    by (simp split: option.splits)
  show ?case
  proof (cases "Suc n = length (takeWhile P s)")
    case True
    have "re_plus cap (Lit (c # l) # its) s (Suc n) =
            (case re_seq (Lit (c # l) # its) (drop (Suc n) s) of
               Some gs \<Rightarrow> Some (if cap then take (Suc n) s # gs else gs)
             | None \<Rightarrow> None)"
      using IH by (simp del: re_seq.simps split: option.splits)
    then show ?thesis using True [symmetric] by (simp del: re_seq.simps re_plus.simps)
  next
    case False
    then have "Suc n < length (takeWhile P s)"
      using Suc.prems by simp
    from drop_in_takeWhile [OF this] obtain t
      where "drop (Suc n) s = (s ! Suc n) # t" "P (s ! Suc n)" by blast
    then have "\<not> prefix (c # l) (drop (Suc n) s)"
      using assms(1) by auto
    then show ?thesis using False IH by simp
  qed
qed

lemma re_seq_class_then_literal:
  assumes "\<not> P c"
  shows "re_seq (GroupPlus P # Lit (c # l) # its) s =
           (if takeWhile P s = [] then None
            else (case re_seq (Lit (c # l) # its) (dropWhile P s) of
                    Some gs \<Rightarrow> Some (takeWhile P s # gs)
                  | None \<Rightarrow> None))"
    and "re_seq (Plus P # Lit (c # l) # its) s =
           (if takeWhile P s = [] then None
            else re_seq (Lit (c # l) # its) (dropWhile P s))"
proof -
  have n: "length (takeWhile P s) \<le> length (takeWhile P s)"
    by simp
  have t: "take (length (takeWhile P s)) s = takeWhile P s"
    by (simp add: takeWhile_eq_take [symmetric])
  have d: "drop (length (takeWhile P s)) s = dropWhile P s"
    by (simp add: dropWhile_eq_drop)
  show "re_seq (GroupPlus P # Lit (c # l) # its) s =
           (if takeWhile P s = [] then None
            else (case re_seq (Lit (c # l) # its) (dropWhile P s) of
                    Some gs \<Rightarrow> Some (takeWhile P s # gs)
                  | None \<Rightarrow> None))"
    using re_plus_before_excluded [of P c "length (takeWhile P s)" s True l its, OF assms n]
    by (simp del: re_seq.simps(2) re_plus.simps add: t d split: option.splits)
  show "re_seq (Plus P # Lit (c # l) # its) s =
           (if takeWhile P s = [] then None
            else re_seq (Lit (c # l) # its) (dropWhile P s))"
    using re_plus_before_excluded [of P c "length (takeWhile P s)" s False l its, OF assms n]
    by (simp del: re_seq.simps(2) re_plus.simps add: t d split: option.splits)
qed

lemma re_seq_last_class:
  "re_seq [GroupPlus P] s = (if takeWhile P s = [] then None else Some [takeWhile P s])"
proof (cases "length (takeWhile P s)")
  case 0
  then show ?thesis by simp
next
  case (Suc n)
  then have "take (Suc n) s = takeWhile P s"
    by (metis takeWhile_eq_take)
  with Suc show ?thesis by auto
qed

lemma re_seq_entry_pattern:
  "re_seq entry_pattern s = map_option (\<lambda>(name, desc). [name, desc]) (entry_fields s)"
proof -
  have lits: "ascii '']('' = of_char (CHR '']'') # ascii ''(''"
    "ascii '')** - '' = of_char (CHR '')'') # ascii ''** - ''"
    "length (ascii ''- **['') = 5" "length (ascii '']('' ) = 2" "length (ascii '')** - '') = 6"
    by (simp_all add: ascii_def)
  have a: "re_seq [Lit (ascii '')** - ''), GroupPlus (\<lambda>c. c \<noteq> newline)] t =
             (if prefix (ascii '')** - '') t then
                (if takeWhile (\<lambda>c. c \<noteq> newline) (drop 6 t) = [] then None
                 else Some [takeWhile (\<lambda>c. c \<noteq> newline) (drop 6 t)])
              else None)" for t
    using re_seq_last_class [of "\<lambda>c. c \<noteq> newline"] by (simp add: lits(5))
  have b: "re_seq [Plus (\<lambda>c. c \<noteq> of_char (CHR '')'')), Lit (ascii '')** - ''),
                   GroupPlus (\<lambda>c. c \<noteq> newline)] t =
             (if takeWhile (\<lambda>c. c \<noteq> of_char (CHR '')'')) t = [] then None
              else re_seq [Lit (ascii '')** - ''), GroupPlus (\<lambda>c. c \<noteq> newline)]
                     (dropWhile (\<lambda>c. c \<noteq> of_char (CHR '')'')) t))" for t
    unfolding lits(2) by (rule re_seq_class_then_literal(2)) simp
  have c: "re_seq (GroupPlus (\<lambda>c. c \<noteq> of_char (CHR '']'')) # Lit (ascii '']('' ) # its) t =
             (if takeWhile (\<lambda>c. c \<noteq> of_char (CHR '']'')) t = [] then None
              else (case re_seq (Lit (ascii '']('' ) # its)
                           (dropWhile (\<lambda>c. c \<noteq> of_char (CHR '']'')) t) of
                      Some gs \<Rightarrow> Some (takeWhile (\<lambda>c. c \<noteq> of_char (CHR '']'')) t # gs)
                    | None \<Rightarrow> None))" for t its
    unfolding lits(1) by (rule re_seq_class_then_literal(1)) simp
  have d: "re_seq (Lit (ascii ''- **['') # its) t =
             (if prefix (ascii ''- **['') t then re_seq its (drop 5 t) else None)" for t its
    by (simp add: lits(3))
  have e: "re_seq (Lit (ascii '']('' ) # its) t =
             (if prefix (ascii '']('' ) t then re_seq its (drop 2 t) else None)" for t its
    by (simp add: lits(4))
  show ?thesis
    unfolding entry_pattern_def entry_fields_def
    by (simp only: d c e b a Let_def) simp
qed

lemma entry_fields_shape:
  assumes "of_char (CHR '']'') \<notin> set name" and "of_char (CHR '')'') \<notin> set link"
  shows "entry_fields (ascii ''- **['' @ name @ ascii '']('' @ link @ ascii '')** -'' @ t)
           = (if name = [] \<or> link = [] \<or> \<not> prefix [blank] t
                \<or> takeWhile (\<lambda>c. c \<noteq> newline) (drop 1 t) = [] then None
              else Some (name, takeWhile (\<lambda>c. c \<noteq> newline) (drop 1 t)))"
proof -
  have n: "takeWhile (\<lambda>c. c \<noteq> 93) (name @ 93 # r) = name"
    "dropWhile (\<lambda>c. c \<noteq> 93) (name @ 93 # r) = 93 # r" for r :: str
    using assms(1) by (auto simp: takeWhile_tail dropWhile_append3)
  have l: "takeWhile (\<lambda>c. c \<noteq> 41) (link @ 41 # r) = link"
    "dropWhile (\<lambda>c. c \<noteq> 41) (link @ 41 # r) = 41 # r" for r :: str
    using assms(2) by (auto simp: takeWhile_tail dropWhile_append3)
  show ?thesis
    by (cases t) (auto simp: entry_fields_def ascii_def n l blank_def Let_def)
qed

lemma strip_entry_line:
  assumes "list_all isspace ws"
  shows "strip (ws @ ascii ''- **['' @ name @ ascii '']('' @ link @ ascii '')** - '' @ desc)
           = ascii ''- **['' @ name @ ascii '']('' @ link @ ascii '')** -''
               @ rstrip (blank # desc)"
proof -
  have 1: "rstrip (link @ ascii '')** - '' @ desc)
             = link @ ascii '')** -'' @ rstrip (blank # desc)"
    using rstrip_keep [OF not_isspace_ascii(2), of "link @ ascii '')** ''" "blank # desc"]
    by (simp add: ascii_def blank_def)
  have "strip (ws @ of_char (CHR ''-'') # (ascii '' **['' @ name @ ascii '']'')
                  @ of_char (CHR ''('') # (link @ ascii '')** - '' @ desc))
          = of_char (CHR ''-'') # (ascii '' **['' @ name @ ascii '']'')
              @ of_char (CHR ''('') # rstrip (link @ ascii '')** - '' @ desc)"
    by (rule strip_keep [OF assms not_isspace_ascii(2) not_isspace_ascii(4)])
  then show ?thesis
    by (simp add: 1) (simp add: ascii_def)
qed

lemma entry_line_not_heading:
  assumes "list_all isspace ws"
  shows "\<not> is_heading (ws @ of_char (CHR ''-'') # b)"
proof (cases ws)
  case Nil
  then show ?thesis
    by (simp add: is_heading_def startswith_def ascii_def)
next
  case (Cons w ws')
  with assms have "isspace w" by simp
  then have "w \<noteq> of_char (CHR ''#'')"
    using not_isspace_ascii(1) by auto
  with Cons show ?thesis
    by (simp add: is_heading_def startswith_def ascii_def)
qed

section \<open>One line of the loop\<close>

lemma heading_not_entry_shaped:
  assumes "startswith line (ascii ''### '')"
  shows "\<not> entry_shaped line"
proof -
  from assms obtain b where "line = of_char (CHR ''#'') # b"
    by (auto simp: startswith_def ascii_def prefix_def)
  then have "strip line = of_char (CHR ''#'') # rstrip b"
    using strip_first [OF not_isspace_ascii(1)] by simp
  then show ?thesis
    by (simp add: entry_shaped_def startswith_def ascii_def)
qed

lemma rocket_not_heading:
  "startswith line (ascii ''### '' @ [rocket]) \<Longrightarrow> \<not> is_heading line"
  by (simp add: is_heading_def)

lemma rocket_starts_heading_marker:
  "startswith line (ascii ''### '' @ [rocket]) \<Longrightarrow> startswith line (ascii ''### '')"
  by (auto simp: startswith_def prefix_def)

lemma process_line_alt:
  "process_line st line =
     (if is_heading line then
        (case find (\<lambda>cat. contains line cat) (keys (agents st)) of
           Some cat \<Rightarrow> Inr (st\<lparr>current_category := Some cat\<rparr>)
         | None \<Rightarrow> Inr st)
      else if truthy (current_category st) \<and> entry_shaped line then
        (case entry_fields (strip line) of
           None \<Rightarrow> Inr st
         | Some e \<Rightarrow>
             (case current_category st of
                None \<Rightarrow> Inl KeyError
              | Some cat \<Rightarrow>
                  (case dict_append (agents st) cat e of
                     Inl err \<Rightarrow> Inl err
                   | Inr d \<Rightarrow> Inr (st\<lparr>agents := d\<rparr>))))
      else Inr st)"
  by (auto simp: process_line_def re_seq_entry_pattern group_def
           split: option.splits sum.splits prod.splits)

lemma truthy_well_formed:
  "well_formed st \<Longrightarrow> truthy (current_category st) \<longleftrightarrow> current_category st \<noteq> None"
  using categories_nonempty by (auto simp: well_formed_def truthy_def split: option.splits)

lemma well_formed_initial: "well_formed initial_state"
  by (simp add: well_formed_def initial_state_def categories_def)

lemma process_line_well_formed:
  assumes "well_formed st"
  shows "\<exists>st'. process_line st line = Inr st' \<and> well_formed st'"
proof (cases "is_heading line")
  case True
  show ?thesis
  proof (cases "find (\<lambda>cat. contains line cat) (keys (agents st))")
    case None
    with True assms show ?thesis by (simp add: process_line_alt)
  next
    case (Some cat)
    then have "cat \<in> set (keys (agents st))"
      by (auto simp: find_Some_iff)
    with True Some assms show ?thesis
      by (simp add: process_line_alt well_formed_def)
  qed
next
  case False
  show ?thesis
  proof (cases "truthy (current_category st) \<and> entry_shaped line")
    case no: False
    with False assms show ?thesis by (auto simp: process_line_alt)
  next
    case yes: True
    then obtain cat where cat: "current_category st = Some cat"
      by (auto simp: truthy_def split: option.splits)
    with assms have "cat \<in> set (keys (agents st))"
      by (simp add: well_formed_def)
    show ?thesis
    proof (cases "entry_fields (strip line)")
      case None
      with False yes assms show ?thesis by (simp add: process_line_alt)
    next
      case (Some e)
      from dict_append_present [OF \<open>cat \<in> set (keys (agents st))\<close>, of e]
      obtain d where "dict_append (agents st) cat e = Inr d" "keys d = keys (agents st)"
        by blast
      with False yes Some cat assms show ?thesis
        by (simp add: process_line_alt well_formed_def)
    qed
  qed
qed

lemma process_line_current:
  assumes "process_line st line = Inr st'"
    and "\<not> is_heading line \<or> list_all (\<lambda>c. \<not> contains line c) (keys (agents st))"
  shows "current_category st' = current_category st"
proof (cases "is_heading line")
  case True
  with assms(2) have "find (\<lambda>cat. contains line cat) (keys (agents st)) = None"
    by (auto simp: find_None_iff list_all_iff)
  with True assms(1) show ?thesis
    by (simp add: process_line_alt)
next
  case False
  with assms(1) show ?thesis
    by (auto simp: process_line_alt split: if_splits option.splits sum.splits)
qed

lemma process_line_rocket:
  assumes "startswith line (ascii ''### '' @ [rocket])"
  shows "process_line st line = Inr st"
  using rocket_not_heading [OF assms]
        heading_not_entry_shaped [OF rocket_starts_heading_marker [OF assms] ]
  by (simp add: process_line_alt)

section \<open>The loop over the lines\<close>

text \<open>
  The loop never raises: from the state of line 26 on, the keys of the dictionary are
  the nine names of the literal and the current category, once set, is one of them.
\<close>

lemma scan_lines_well_formed:
  "well_formed st \<Longrightarrow> \<exists>st'. scan_lines st ls = Inr st' \<and> well_formed st'"
proof (induction ls arbitrary: st)
  case Nil
  then show ?case by simp
next
  case (Cons l ls)
  from process_line_well_formed [OF Cons.prems, of l]
  obtain st1 where "process_line st l = Inr st1" "well_formed st1" by blast
  with Cons.IH [of st1] show ?case by simp
qed

lemma scan_lines_append:
  "scan_lines st (xs @ ys) =
     (case scan_lines st xs of Inl err \<Rightarrow> Inl err | Inr st' \<Rightarrow> scan_lines st' ys)"
  by (induction xs arbitrary: st) (auto split: sum.splits)

lemma scan_lines_snoc:
  "scan_lines st xs = Inr st' \<Longrightarrow> scan_lines st (xs @ [l]) = process_line st' l"
  by (simp add: scan_lines_append split: sum.splits)

lemma scan_lines_reachable:
  "\<exists>st. scan_lines initial_state ls = Inr st \<and> well_formed st"
  using scan_lines_well_formed [OF well_formed_initial] .

lemma scan_lines_no_heading:
  assumes "list_all (\<lambda>l. \<not> recognized_heading l) pre"
    and "keys (agents st) = categories" and "current_category st = None"
  shows "scan_lines st pre = Inr st"
  using assms
proof (induction pre)
  case Nil
  then show ?case by simp
next
  case (Cons l pre)
  then have "\<not> recognized_heading l" by simp
  then have "find (\<lambda>cat. contains l cat) categories = None" if "is_heading l"
    using that by (auto simp: recognized_heading_def find_None_iff list_ex_iff)
  then have "process_line st l = Inr st"
    using Cons.prems(2,3) by (simp add: process_line_alt truthy_def)
  with Cons show ?case by simp
qed

lemma scan_lines_no_entries:
  assumes "well_formed st" and "list_all (\<lambda>l. \<not> entry_shaped l) ls"
  shows "\<exists>st'. scan_lines st ls = Inr st' \<and> agents st' = agents st"
  using assms
proof (induction ls arbitrary: st)
  case Nil
  then show ?case by simp
next
  case (Cons l ls)
  obtain st1 where st1: "process_line st l = Inr st1" "well_formed st1"
    using process_line_well_formed [OF Cons.prems(1)] by blast
  have "\<not> entry_shaped l"
    using Cons.prems(2) by simp
  with st1(1) have "agents st1 = agents st"
    by (auto simp: process_line_alt split: if_splits option.splits)
  moreover obtain st' where "scan_lines st1 ls = Inr st'" "agents st' = agents st1"
    using Cons.IH [OF st1(2)] Cons.prems(2) by auto
  ultimately show ?case
    using st1(1) by simp
qed

lemma recognized_not_entry_shaped: "recognized_heading l \<Longrightarrow> \<not> entry_shaped l"
  using heading_not_entry_shaped by (simp add: recognized_heading_def is_heading_def)

lemma no_entry_after_first_heading:
  assumes "\<And>i j. i < length ls \<Longrightarrow> entry_shaped (ls ! i) \<Longrightarrow> j < i
             \<Longrightarrow> \<not> recognized_heading (ls ! j)"
  shows "list_all (\<lambda>l. \<not> entry_shaped l) (dropWhile (\<lambda>l. \<not> recognized_heading l) ls)"
proof -
  let ?P = "\<lambda>l. \<not> recognized_heading l"
  let ?n = "length (takeWhile ?P ls)"
  have "\<not> entry_shaped (dropWhile ?P ls ! m)" if m: "m < length (dropWhile ?P ls)" for m
  proof
    assume e: "entry_shaped (dropWhile ?P ls ! m)"
    have len: "?n + m < length ls"
      using m by (simp add: dropWhile_eq_drop)
    have at: "dropWhile ?P ls ! m = ls ! (?n + m)"
      using len by (simp add: dropWhile_eq_drop)
    have "?n < length ls"
      using len by simp
    then have first: "recognized_heading (ls ! ?n)"
      using nth_length_takeWhile [of ?P ls] by blast
    show False
    proof (cases m)
      case 0
      with e at first recognized_not_entry_shaped show False by simp
    next
      case (Suc m')
      then have "?n < ?n + m" by simp
      from assms [OF len _ this] e at first show False by simp
    qed
  qed
  then show ?thesis
    by (simp add: list_all_length)
qed

section \<open>Properties of the extractor\<close>

text \<open>
  C3, as the specification states it, fails. The line "- **[a](b)** - d " (with a
  blank at its end) matches the pattern with the description "d " (the blank is part of
  it), but the description that is stored is "d": line 36 matches the line after
  \<^verbatim>\<open>strip()\<close> has removed the whitespace at both of its ends.
\<close>

theorem trailing_blank_not_stored:
  "re_seq entry_pattern (ascii ''- **[a](b)** - d '') = Some [ascii ''a'', ascii ''d '']
   \<and> parse_readme (Some (ascii ''### Data & AI'' @ [newline] @ ascii ''- **[a](b)** - d ''))
       = Inr (Some (agents_literal
                      [4 := (ascii ''Data & AI'', [(ascii ''a'', ascii ''d'')])]))
   \<and> ascii ''d'' \<noteq> ascii ''d ''"
  by code_simp

text \<open>
  C3, amended. Let a line consist of whitespace, "- **[", a name of one or more
  characters other than "]", "](", a link of one or more characters other than ")",
  ")** - " and a description that holds a character that is not whitespace, and let it
  stand where a current category is set. Then the pair of the name and of the
  description without its trailing whitespace is appended at the end of the sequence of
  that category; the name is verbatim, the description is verbatim up to its last
  character that is not whitespace; the other categories, the keys and the current
  category stay as they are.
\<close>

theorem entry_appended:
  assumes "scan_lines initial_state pre = Inr st" and "current_category st = Some cat"
    and "line = ws @ ascii ''- **['' @ name @ ascii '']('' @ link @ ascii '')** - '' @ desc"
    and "list_all isspace ws"
    and "name \<noteq> []" and "of_char (CHR '']'') \<notin> set name"
    and "link \<noteq> []" and "of_char (CHR '')'') \<notin> set link"
    and "newline \<notin> set desc" and "rstrip desc \<noteq> []"
  shows "\<exists>es st'. dict_get (agents st) cat = Some es
           \<and> scan_lines initial_state (pre @ [line]) = Inr st'
           \<and> dict_get (agents st') cat = Some (es @ [(name, rstrip desc)])
           \<and> (\<forall>c. c \<noteq> cat \<longrightarrow> dict_get (agents st') c = dict_get (agents st) c)
           \<and> keys (agents st') = keys (agents st)
           \<and> current_category st' = Some cat"
proof -
  have wf: "well_formed st"
    using scan_lines_reachable [of pre] assms(1) by simp
  then have cat: "cat \<in> set (keys (agents st))" and tr: "truthy (current_category st)"
    using assms(2) truthy_well_formed [OF wf] by (simp_all add: well_formed_def)
  have "rstrip ([blank] @ desc) = [blank] @ rstrip desc"
    by (rule rstrip_append [OF assms(10)])
  then have s: "strip line = ascii ''- **['' @ name @ ascii '']('' @ link @ ascii '')** -''
                          @ blank # rstrip desc"
    unfolding assms(3) using strip_entry_line [OF assms(4), of name link desc] by simp
  have "newline \<notin> set (rstrip desc)"
    using assms(9) set_rstrip by blast
  then have tw: "takeWhile (\<lambda>c. c \<noteq> newline) (rstrip desc) = rstrip desc"
    by (auto simp: takeWhile_eq_all_conv)
  have f: "entry_fields (strip line) = Some (name, rstrip desc)"
    unfolding s using assms(5,7,10) by (simp add: entry_fields_shape [OF assms(6,8)] tw)
  have sh: "entry_shaped line"
    unfolding entry_shaped_def s by (simp add: startswith_def)
  have nh: "\<not> is_heading line"
    unfolding assms(3) using entry_line_not_heading [OF assms(4)] by (simp add: ascii_def)
  obtain d where d: "dict_append (agents st) cat (name, rstrip desc) = Inr d"
    "keys d = keys (agents st)"
    using dict_append_present [OF cat] by blast
  obtain es where es: "dict_get (agents st) cat = Some es"
    using dict_get_present [OF cat] by blast
  have "process_line st line = Inr (st\<lparr>agents := d\<rparr>)"
    using nh sh tr f d(1) assms(2) by (simp add: process_line_alt)
  then have run: "scan_lines initial_state (pre @ [line]) = Inr (st\<lparr>agents := d\<rparr>)"
    using scan_lines_snoc [OF assms(1)] by simp
  have got: "dict_get d cat = Some (es @ [(name, rstrip desc)])"
    and others: "\<forall>c. c \<noteq> cat \<longrightarrow> dict_get d c = dict_get (agents st) c"
    using dict_append_get [OF d(1)] es by simp_all
  show ?thesis
  proof (intro exI conjI)
    show "dict_get (agents st) cat = Some es"
      by (rule es)
    show "scan_lines initial_state (pre @ [line]) = Inr (st\<lparr>agents := d\<rparr>)"
      by (rule run)
    show "dict_get (agents (st\<lparr>agents := d\<rparr>)) cat = Some (es @ [(name, rstrip desc)])"
      using got by simp
    show "\<forall>c. c \<noteq> cat \<longrightarrow>
            dict_get (agents (st\<lparr>agents := d\<rparr>)) c = dict_get (agents st) c"
      using others by simp
    show "keys (agents (st\<lparr>agents := d\<rparr>)) = keys (agents st)"
      using d(2) by simp
    show "current_category (st\<lparr>agents := d\<rparr>) = Some cat"
      using assms(2) by simp
  qed
qed

theorem entry_appended_witness:
  "\<exists>st'. scan_lines initial_state
            [ascii ''### Data & AI'', ascii ''- **[x](y)** - first'',
             ascii ''  - **[code-reviewer](link)** - Reviews code.  '']
          = Inr st'
        \<and> dict_get (agents st') (ascii ''Data & AI'')
            = Some [(ascii ''x'', ascii ''first''),
                    (ascii ''code-reviewer'', ascii ''Reviews code.'')]"
proof -
  let ?pre = "[ascii ''### Data & AI'', ascii ''- **[x](y)** - first'']"
  obtain st where 1: "scan_lines initial_state ?pre = Inr st"
    using scan_lines_reachable by blast
  have "map_sum id current_category (scan_lines initial_state ?pre)
          = Inr (Some (ascii ''Data & AI''))"
    by code_simp
  then have 2: "current_category st = Some (ascii ''Data & AI'')"
    unfolding 1 by simp
  have "map_sum id (\<lambda>s. dict_get (agents s) (ascii ''Data & AI''))
          (scan_lines initial_state ?pre) = Inr (Some [(ascii ''x'', ascii ''first'')])"
    by code_simp
  then have before: "dict_get (agents st) (ascii ''Data & AI'')
                       = Some [(ascii ''x'', ascii ''first'')]"
    unfolding 1 by simp
  have 3: "ascii ''  - **[code-reviewer](link)** - Reviews code.  ''
             = ascii ''  '' @ ascii ''- **['' @ ascii ''code-reviewer'' @ ascii '']('' @ ascii ''link''
                 @ ascii '')** - '' @ ascii ''Reviews code.  ''"
    by (simp add: ascii_def)
  have 4: "list_all isspace (ascii ''  '')"
    by code_simp
  have 5: "ascii ''code-reviewer'' \<noteq> []" and 7: "ascii ''link'' \<noteq> []"
    by (simp_all add: ascii_def)
  have 6: "of_char (CHR '']'') \<notin> set (ascii ''code-reviewer'')"
    and 8: "of_char (CHR '')'') \<notin> set (ascii ''link'')"
    and 9: "newline \<notin> set (ascii ''Reviews code.  '')"
    by code_simp+
  have r: "rstrip (ascii ''Reviews code.  '') = ascii ''Reviews code.''"
    by code_simp
  then have 10: "rstrip (ascii ''Reviews code.  '') \<noteq> []"
    by (simp add: ascii_def)
  from entry_appended [OF 1 2 3 4 5 6 7 8 9 10]
  obtain es st' where e: "dict_get (agents st) (ascii ''Data & AI'') = Some es"
    "scan_lines initial_state
       (?pre @ [ascii ''  - **[code-reviewer](link)** - Reviews code.  '']) = Inr st'"
    "dict_get (agents st') (ascii ''Data & AI'')
       = Some (es @ [(ascii ''code-reviewer'', rstrip (ascii ''Reviews code.  ''))])"
    by blast
  from e(1) before have "es = [(ascii ''x'', ascii ''first'')]"
    by simp
  with e(3) r have "dict_get (agents st') (ascii ''Data & AI'')
                      = Some [(ascii ''x'', ascii ''first''),
                              (ascii ''code-reviewer'', ascii ''Reviews code.'')]"
    by simp
  moreover have "scan_lines initial_state
            [ascii ''### Data & AI'', ascii ''- **[x](y)** - first'',
             ascii ''  - **[code-reviewer](link)** - Reviews code.  ''] = Inr st'"
    using e(2) by (simp del: scan_lines.simps)
  ultimately show ?thesis
    by blast
qed

text \<open>
  C4. A line that starts with "### " and not with "### " and the rocket, and that
  contains two different category names, sets \<^verbatim>\<open>current_category\<close> to the
  category name that comes first in the order of the dictionary literal among those the
  line contains, wherever in the document the line stands.
\<close>

theorem first_category_in_order_wins:
  assumes "is_heading line"
    and "i < j" and "j < length categories"
    and "contains line (categories ! i)" and "contains line (categories ! j)"
  shows "\<exists>st k. scan_lines initial_state pre = Inr st \<and> k \<le> i
           \<and> scan_lines initial_state (pre @ [line])
               = Inr (st\<lparr>current_category := Some (categories ! k)\<rparr>)
           \<and> contains line (categories ! k)
           \<and> (\<forall>m<k. \<not> contains line (categories ! m))"
proof -
  obtain st where st: "scan_lines initial_state pre = Inr st" "well_formed st"
    using scan_lines_reachable by blast
  then have ks: "keys (agents st) = categories"
    by (simp add: well_formed_def)
  have "i < length categories"
    using assms(2,3) by simp
  then have "categories ! i \<in> set categories"
    by simp
  then have "find (\<lambda>cat. contains line cat) categories \<noteq> None"
    using assms(4) by (auto simp: find_None_iff)
  then obtain c where c: "find (\<lambda>cat. contains line cat) categories = Some c"
    by blast
  then obtain k where k: "k < length categories" "contains line (categories ! k)"
    "c = categories ! k" "\<forall>m<k. \<not> contains line (categories ! m)"
    by (auto simp: find_Some_iff)
  have "k \<le> i"
  proof (rule ccontr)
    assume "\<not> k \<le> i"
    then have "i < k" by simp
    with k(4) assms(4) show False by blast
  qed
  moreover have "scan_lines initial_state (pre @ [line])
                   = Inr (st\<lparr>current_category := Some (categories ! k)\<rparr>)"
    using scan_lines_snoc [OF st(1), of line] assms(1) c k(3) ks
    by (simp add: process_line_alt)
  ultimately show ?thesis
    using st(1) k(2,4) by blast
qed

theorem first_category_in_order_wins_witness:
  "scan_lines initial_state
     [ascii ''### Business & Marketing'', ascii ''### Documentation for Data & AI'']
   = Inr (initial_state\<lparr>current_category := Some (ascii ''Data & AI'')\<rparr>)"
proof -
  let ?line = "ascii ''### Documentation for Data & AI''"
  let ?pre = "[ascii ''### Business & Marketing'']"
  have h1: "is_heading ?line" by code_simp
  have h2: "(4::nat) < 6" by simp
  have h3: "6 < length categories" by (simp add: length_categories)
  have h4: "contains ?line (categories ! 4)" by code_simp
  have h5: "contains ?line (categories ! 6)" by code_simp
  from first_category_in_order_wins [OF h1 h2 h3 h4 h5, of ?pre]
  obtain st k where r: "scan_lines initial_state ?pre = Inr st" "k \<le> 4"
    "scan_lines initial_state (?pre @ [?line])
       = Inr (st\<lparr>current_category := Some (categories ! k)\<rparr>)"
    "contains ?line (categories ! k)"
    by blast
  have "\<not> contains ?line (categories ! 0)" "\<not> contains ?line (categories ! 1)"
    "\<not> contains ?line (categories ! 2)" "\<not> contains ?line (categories ! 3)"
    by code_simp+
  moreover have "k = 0 \<or> k = 1 \<or> k = 2 \<or> k = 3 \<or> k = 4"
    using r(2) by arith
  ultimately have "k = 4"
    using r(4) by auto
  moreover have "categories ! 4 = ascii ''Data & AI''"
    by (simp add: categories_list)
  moreover have "scan_lines initial_state ?pre
                   = Inr (initial_state\<lparr>current_category := Some (ascii ''Business & Marketing'')\<rparr>)"
    by code_simp
  with r(1) have "st = initial_state\<lparr>current_category := Some (ascii ''Business & Marketing'')\<rparr>"
    by (simp del: scan_lines.simps)
  ultimately show ?thesis
    using r(3) by (simp del: scan_lines.simps)
qed

text \<open>
  C5. Wherever it stands in the document, a line that starts with "### " and the
  rocket, or that is not a qualifying heading (it does not start with "### ", or it
  starts with "### " and the rocket), or that contains none of the category names,
  leaves \<^verbatim>\<open>current_category\<close> as it was: it is never reset to \<^verbatim>\<open>None\<close>. A
  line that starts with "### " and the rocket changes nothing at all.
\<close>

theorem current_category_kept:
  assumes "startswith line (ascii ''### '' @ [rocket]) \<or> \<not> is_heading line
           \<or> list_all (\<lambda>c. \<not> contains line c) categories"
  shows "\<exists>st st'. scan_lines initial_state pre = Inr st
           \<and> scan_lines initial_state (pre @ [line]) = Inr st'
           \<and> current_category st' = current_category st
           \<and> (startswith line (ascii ''### '' @ [rocket]) \<longrightarrow> st' = st)"
proof -
  obtain st where st: "scan_lines initial_state pre = Inr st" "well_formed st"
    using scan_lines_reachable by blast
  obtain st' where st': "process_line st line = Inr st'"
    using process_line_well_formed [OF st(2)] by blast
  have "\<not> is_heading line \<or> list_all (\<lambda>c. \<not> contains line c) (keys (agents st))"
    using assms st(2) rocket_not_heading by (auto simp: well_formed_def)
  from process_line_current [OF st' this]
  have "current_category st' = current_category st" .
  moreover have "st' = st" if "startswith line (ascii ''### '' @ [rocket])"
    using process_line_rocket [OF that, of st] st' by simp
  moreover have "scan_lines initial_state (pre @ [line]) = Inr st'"
    using scan_lines_snoc [OF st(1)] st' by simp
  ultimately show ?thesis
    using st(1) by blast
qed

theorem current_category_kept_witness:
  "scan_lines initial_state
     [ascii ''### Data & AI'', ascii ''### '' @ [rocket] @ ascii '' Documentation'']
   = Inr (initial_state\<lparr>current_category := Some (ascii ''Data & AI'')\<rparr>)"
proof -
  let ?line = "ascii ''### '' @ [rocket] @ ascii '' Documentation''"
  let ?pre = "[ascii ''### Data & AI'']"
  have h: "startswith ?line (ascii ''### '' @ [rocket])"
    by code_simp
  then have "startswith ?line (ascii ''### '' @ [rocket]) \<or> \<not> is_heading ?line
           \<or> list_all (\<lambda>c. \<not> contains ?line c) categories"
    by blast
  from current_category_kept [OF this, of ?pre] h
  obtain st where r: "scan_lines initial_state ?pre = Inr st"
    "scan_lines initial_state (?pre @ [?line]) = Inr st"
    by blast
  have "scan_lines initial_state ?pre
          = Inr (initial_state\<lparr>current_category := Some (ascii ''Data & AI'')\<rparr>)"
    by code_simp
  with r(1) have "st = initial_state\<lparr>current_category := Some (ascii ''Data & AI'')\<rparr>"
    by (simp del: scan_lines.simps)
  then show ?thesis
    using r(2) by (simp del: scan_lines.simps)
qed

text \<open>
  C6. For every content of an existing file the dictionary that \<^verbatim>\<open>parse_readme\<close>
  returns has exactly the nine category names as its keys, in the order of the literal,
  and so has the dictionary after any number of lines of the loop (\<open>n = 0\<close> is the
  dictionary as lines 14 to 24 create it).
\<close>

theorem catalog_keys_invariant:
  "(\<exists>d. parse_readme (Some content) = Inr (Some d) \<and> keys d = categories)
   \<and> (\<forall>n. \<exists>st. scan_lines initial_state (take n (py_split newline content)) = Inr st
              \<and> keys (agents st) = categories)
   \<and> length categories = 9 \<and> distinct categories"
proof -
  obtain st where "scan_lines initial_state (py_split newline content) = Inr st"
    "well_formed st"
    using scan_lines_reachable by blast
  then have "parse_readme (Some content) = Inr (Some (agents st))"
    "keys (agents st) = categories"
    by (simp_all add: parse_readme_def well_formed_def)
  moreover have "\<exists>st. scan_lines initial_state (take n (py_split newline content)) = Inr st
              \<and> keys (agents st) = categories" for n
    using scan_lines_reachable [of "take n (py_split newline content)"]
    by (auto simp: well_formed_def)
  ultimately show ?thesis
    using length_categories distinct_categories by blast
qed

text \<open>
  C7. When every entry-shaped line of the file comes before the first recognized
  category heading (a qualifying heading that contains a category name), no line
  produces an entry: the returned dictionary is the dictionary literal, every category
  with the empty list.
\<close>

theorem entries_before_headings_dropped:
  assumes "\<And>i j. i < length (py_split newline content)
             \<Longrightarrow> entry_shaped (py_split newline content ! i) \<Longrightarrow> j < i
             \<Longrightarrow> \<not> recognized_heading (py_split newline content ! j)"
  shows "parse_readme (Some content) = Inr (Some agents_literal)"
proof -
  let ?ls = "py_split newline content"
  let ?P = "\<lambda>l. \<not> recognized_heading l"
  have "list_all ?P (takeWhile ?P ?ls)"
    by (auto simp: list_all_iff dest: set_takeWhileD)
  then have pre: "scan_lines initial_state (takeWhile ?P ?ls) = Inr initial_state"
    by (rule scan_lines_no_heading) (simp_all add: initial_state_def categories_def)
  have "list_all (\<lambda>l. \<not> entry_shaped l) (dropWhile ?P ?ls)"
    using assms by (rule no_entry_after_first_heading)
  from scan_lines_no_entries [OF well_formed_initial this]
  obtain st where st: "scan_lines initial_state (dropWhile ?P ?ls) = Inr st"
    "agents st = agents initial_state"
    by blast
  have "scan_lines initial_state (takeWhile ?P ?ls @ dropWhile ?P ?ls) = Inr st"
    using pre st(1) by (simp only: scan_lines_append sum.case)
  then have "scan_lines initial_state ?ls = Inr st"
    by simp
  then show ?thesis
    using st(2) by (simp add: parse_readme_def initial_state_def)
qed

theorem entries_before_headings_dropped_witness:
  "parse_readme (Some (ascii ''- **[a](b)** - early'' @ [newline] @ ascii ''### Data & AI''
                        @ [newline] @ ascii ''notes''))
     = Inr (Some agents_literal)
   \<and> entry_shaped (ascii ''- **[a](b)** - early'')
   \<and> recognized_heading (ascii ''### Data & AI'')"
proof -
  let ?c = "ascii ''- **[a](b)** - early'' @ [newline] @ ascii ''### Data & AI''
              @ [newline] @ ascii ''notes''"
  have ls: "py_split newline ?c
              = [ascii ''- **[a](b)** - early'', ascii ''### Data & AI'', ascii ''notes'']"
    by code_simp
  have ne: "\<not> entry_shaped (ascii ''### Data & AI'')" "\<not> entry_shaped (ascii ''notes'')"
    by code_simp+
  have hyp: "\<not> recognized_heading (py_split newline ?c ! j)"
    if "i < length (py_split newline ?c)" and "entry_shaped (py_split newline ?c ! i)"
      and "j < i" for i j
  proof -
    have "i = 0 \<or> i = 1 \<or> i = 2"
      using that(1) unfolding ls by auto
    then have "i = 0"
      using that(2) ne unfolding ls by auto
    with that(3) show ?thesis by simp
  qed
  have "parse_readme (Some ?c) = Inr (Some agents_literal)"
    by (rule entries_before_headings_dropped) (rule hyp)
  moreover have "entry_shaped (ascii ''- **[a](b)** - early'')"
    by code_simp
  moreover have "recognized_heading (ascii ''### Data & AI'')"
    by code_simp
  ultimately show ?thesis
    by blast
qed

text \<open>
  C10. A line of the form blanks, "- **[", name, "](", link, ")** - ", description, the
  name without "]" and the link without ")", in which the name, the link or the
  description is empty, is not matched by the pattern, and processing it changes neither
  the dictionary nor the current category, whatever they are.
\<close>

theorem empty_part_no_entry:
  assumes "line = ws @ ascii ''- **['' @ name @ ascii '']('' @ link @ ascii '')** - '' @ desc"
    and "list_all isspace ws"
    and "of_char (CHR '']'') \<notin> set name" and "of_char (CHR '')'') \<notin> set link"
    and "name = [] \<or> link = [] \<or> desc = []"
  shows "entry_shaped line \<and> re_seq entry_pattern (strip line) = None
         \<and> process_line st line = Inr st"
proof -
  have s: "strip line = ascii ''- **['' @ name @ ascii '']('' @ link @ ascii '')** -''
                          @ rstrip (blank # desc)"
    unfolding assms(1) by (rule strip_entry_line [OF assms(2)])
  have "rstrip [blank] = []"
    by (rule rstrip_blanks) (simp add: isspace_def blank_def)
  then have "entry_fields (strip line) = None"
    unfolding s using assms(5) by (auto simp: entry_fields_shape [OF assms(3,4)])
  moreover have "entry_shaped line"
    unfolding entry_shaped_def s by (simp add: startswith_def)
  moreover have "\<not> is_heading line"
    unfolding assms(1) using entry_line_not_heading [OF assms(2)] by (simp add: ascii_def)
  ultimately show ?thesis
    by (simp add: process_line_alt re_seq_entry_pattern)
qed

theorem empty_part_no_entry_witness:
  "process_line \<lparr>agents = agents_literal, current_category = Some (ascii ''Data & AI'')\<rparr>
     (ascii ''- **[a](b)** - '')
   = Inr \<lparr>agents = agents_literal, current_category = Some (ascii ''Data & AI'')\<rparr>
   \<and> re_seq entry_pattern (strip (ascii ''- **[a](b)** - '')) = None
   \<and> entry_shaped (ascii ''- **[a](b)** - '')"
proof -
  have 1: "ascii ''- **[a](b)** - ''
             = [] @ ascii ''- **['' @ ascii ''a'' @ ascii '']('' @ ascii ''b'' @ ascii '')** - '' @ []"
    by (simp add: ascii_def)
  have 2: "list_all isspace []"
    by simp
  have 3: "of_char (CHR '']'') \<notin> set (ascii ''a'')" and 4: "of_char (CHR '')'') \<notin> set (ascii ''b'')"
    by (simp_all add: ascii_def)
  have 5: "ascii ''a'' = [] \<or> ascii ''b'' = [] \<or> ([] :: str) = []"
    by simp
  from empty_part_no_entry [OF 1 2 3 4 5] show ?thesis
    by blast
qed

section \<open>Properties of the presenter\<close>

lemma continuation_indent:
  "ascii ''    '' @ ljust 30 (ascii '' '') @ ascii '' '' = replicate 35 blank"
  by code_simp

lemma wrap_lines_Nil: "wrap_lines [] = []"
  by (simp add: wrap_lines.simps)

lemma wrap_lines_short:
  assumes "remaining \<noteq> []" and "length remaining \<le> 70"
  shows "wrap_lines remaining = [replicate 35 blank @ remaining]"
proof -
  have "wrap_lines remaining =
          (ascii ''    '' @ ljust 30 (ascii '' '') @ ascii '' '' @ take 70 remaining)
          # wrap_lines (drop 70 remaining)"
    using assms(1) by (subst wrap_lines.simps) simp
  moreover have "take 70 remaining = remaining" and "drop 70 remaining = []"
    using assms(2) by simp_all
  moreover have "ascii ''    '' @ ljust 30 (ascii '' '') @ ascii '' '' @ remaining
                   = replicate 35 blank @ remaining"
    using continuation_indent by (metis append_assoc)
  ultimately show ?thesis
    by (simp add: wrap_lines_Nil)
qed

lemma ascii_no_newline_pad: "newline \<notin> set (ascii ''  '' @ [bullet] @ ascii '' '')"
  by code_simp

lemma newline_not_blank: "newline \<noteq> blank"
  by (simp add: newline_def blank_def)

lemma wrap_lines_blank: "l \<in> set (wrap_lines remaining) \<Longrightarrow> l \<noteq> [] \<and> hd l = blank"
proof (induction remaining rule: wrap_lines.induct)
  case (1 remaining)
  show ?case
  proof (cases "remaining = []")
    case True
    with 1(2) show ?thesis by (simp add: wrap_lines_Nil)
  next
    case False
    then have "wrap_lines remaining =
          (ascii ''    '' @ ljust 30 (ascii '' '') @ ascii '' '' @ take 70 remaining)
          # wrap_lines (drop 70 remaining)"
      by (subst wrap_lines.simps) simp
    with 1 False show ?thesis
      by (auto simp: ascii_def blank_def)
  qed
qed

lemma print_entry_blank: "l \<in> set (print_entry e) \<Longrightarrow> l \<noteq> [] \<and> hd l = blank"
  using wrap_lines_blank
  by (cases e) (auto simp: print_entry_def ascii_def blank_def split: if_splits)

lemma print_category_first:
  assumes "l \<in> set (print_category item)"
  shows "l \<noteq> [] \<and> hd l \<in> {blank, newline, of_char (CHR ''-'')}"
proof (cases item)
  case (Pair category agent_list)
  with assms consider "l = [newline] @ ascii ''### '' @ category"
    | "l = replicate 40 (of_char (CHR ''-''))"
    | e where "e \<in> set agent_list" "l \<in> set (print_entry e)"
    by (auto simp: print_category_def split: if_splits)
  then show ?thesis
  proof cases
    case 1
    then show ?thesis by simp
  next
    case 2
    then show ?thesis by (simp add: numeral_eq_Suc)
  next
    case 3
    then show ?thesis using print_entry_blank by blast
  qed
qed

lemma no_data_message_first: "no_data_message \<noteq> [] \<and> hd no_data_message = of_char (CHR ''U'')"
  by (simp add: no_data_message_def ascii_def)

lemma no_data_message_not_in_body:
  "no_data_message \<notin> set (concat (map print_category d))"
proof
  assume "no_data_message \<in> set (concat (map print_category d))"
  then obtain item where "no_data_message \<in> set (print_category item)"
    by auto
  from print_category_first [OF this] no_data_message_first show False
    by (auto simp: blank_def newline_def)
qed

lemma no_data_message_not_fixed:
  "no_data_message \<notin> set title_banner" "no_data_message \<notin> set trailer"
  by code_simp+

text \<open>
  C1. When nothing exists at the path, \<^verbatim>\<open>parse_readme\<close> returns \<^verbatim>\<open>None\<close> and
  \<^verbatim>\<open>display_agents\<close> makes exactly one \<^verbatim>\<open>print\<close> call, with the fixed text
  "Unable to load agent information.", and nothing else.
\<close>

theorem missing_file_single_message:
  "parse_readme None = Inr None
   \<and> display_agents None = Inr [ascii ''Unable to load agent information.'']"
  by (simp add: parse_readme_def display_agents_def falsy_def no_data_message_def)

text \<open>
  C2, as the specification states it, fails: the continuation line of a description of
  85 characters does not consist of 30 blanks and the last 15 characters. The format
  string of line 63 puts four blanks, the 30-character blank field and one more blank in
  front, 35 blanks in all.
\<close>

theorem continuation_not_30_blanks:
  "tl (print_entry (ascii ''code-reviewer'', replicate 85 (of_char (CHR ''x''))))
     \<noteq> [replicate 30 blank @ drop 70 (replicate 85 (of_char (CHR ''x'')))]"
  by code_simp

text \<open>
  C2, amended. For an entry whose description has exactly 85 characters the presenter
  makes exactly two \<^verbatim>\<open>print\<close> calls: the first with two blanks, the bullet, a blank,
  the name left-justified in a field of 30 characters, a blank and the first 70
  characters of the description; the second with 35 blanks followed by the remaining 15
  characters. When neither the name nor the description holds a newline, neither
  printed string does, so these are two lines of output.
\<close>

theorem print_entry_85:
  assumes "length agent_desc = 85"
  shows "print_entry (agent_name, agent_desc) =
           [ascii ''  '' @ [bullet] @ ascii '' '' @ ljust 30 agent_name @ ascii '' ''
              @ take 70 agent_desc,
            replicate 35 blank @ drop 70 agent_desc]
         \<and> length (take 70 agent_desc) = 70 \<and> length (drop 70 agent_desc) = 15
         \<and> (newline \<notin> set agent_name \<and> newline \<notin> set agent_desc \<longrightarrow>
              (\<forall>l \<in> set (print_entry (agent_name, agent_desc)). newline \<notin> set l))"
proof -
  have rest: "drop 70 agent_desc \<noteq> []" "length (drop 70 agent_desc) \<le> 70"
    using assms by auto
  have shape: "print_entry (agent_name, agent_desc) =
           [ascii ''  '' @ [bullet] @ ascii '' '' @ ljust 30 agent_name @ ascii '' ''
              @ take 70 agent_desc,
            replicate 35 blank @ drop 70 agent_desc]"
    using assms by (simp add: print_entry_def wrap_lines_short [OF rest])
  have lens: "length (take 70 agent_desc) = 70" "length (drop 70 agent_desc) = 15"
    using assms by simp_all
  have no_nl: "\<forall>l \<in> set (print_entry (agent_name, agent_desc)). newline \<notin> set l"
    if "newline \<notin> set agent_name" and "newline \<notin> set agent_desc"
  proof -
    have "newline \<notin> set (take 70 agent_desc)" "newline \<notin> set (drop 70 agent_desc)"
      using that(2) by (auto dest: in_set_takeD in_set_dropD)
    moreover have "newline \<notin> set (ljust 30 agent_name)"
      using that(1) newline_not_blank by (auto simp: ljust_def)
    moreover have "newline \<notin> set (ascii '' '')"
      by (simp add: ascii_def newline_def)
    moreover have "newline \<notin> set (replicate 35 blank)"
      using newline_not_blank by auto
    ultimately show ?thesis
      using ascii_no_newline_pad unfolding shape by auto
  qed
  show ?thesis
    using shape lens no_nl by blast
qed

theorem print_entry_85_witness:
  "print_entry (ascii ''code-reviewer'', replicate 85 (of_char (CHR ''x''))) =
     [ascii ''  '' @ [bullet] @ ascii '' code-reviewer'' @ replicate 18 blank
        @ replicate 70 (of_char (CHR ''x'')),
      replicate 35 blank @ replicate 15 (of_char (CHR ''x''))]"
proof -
  have "length (replicate 85 (of_char (CHR ''x'') :: codepoint)) = 85"
    by simp
  from print_entry_85 [OF this, of "ascii ''code-reviewer''"]
  have "print_entry (ascii ''code-reviewer'', replicate 85 (of_char (CHR ''x''))) =
           [ascii ''  '' @ [bullet] @ ascii '' '' @ ljust 30 (ascii ''code-reviewer'')
              @ ascii '' '' @ take 70 (replicate 85 (of_char (CHR ''x''))),
            replicate 35 blank @ drop 70 (replicate 85 (of_char (CHR ''x'')))]"
    by blast
  moreover have "ascii '' '' @ ljust 30 (ascii ''code-reviewer'') @ ascii '' ''
                   = ascii '' code-reviewer'' @ replicate 18 blank"
    by code_simp
  ultimately show ?thesis
    by simp
qed

lemma display_agents_existing:
  "\<exists>d. parse_readme (Some content) = Inr (Some d) \<and> keys d = categories
       \<and> \<not> falsy (Some d)
       \<and> display_agents (Some content)
           = Inr (title_banner @ concat (map print_category d) @ trailer)
       \<and> no_data_message \<notin> set (title_banner @ concat (map print_category d) @ trailer)"
proof -
  obtain st where st: "scan_lines initial_state (py_split newline content) = Inr st"
    "well_formed st"
    using scan_lines_reachable by blast
  then have p: "parse_readme (Some content) = Inr (Some (agents st))"
    and k: "keys (agents st) = categories"
    by (simp_all add: parse_readme_def well_formed_def)
  have "length (agents st) = 9"
    using k length_categories by (metis keys_def length_map)
  then have "agents st \<noteq> []"
    by auto
  then have f: "\<not> falsy (Some (agents st))"
    by (simp add: falsy_def)
  have "display_agents (Some content)
          = Inr (title_banner @ concat (map print_category (agents st)) @ trailer)"
    using p f by (simp add: display_agents_def)
  moreover have "no_data_message
                   \<notin> set (title_banner @ concat (map print_category (agents st)) @ trailer)"
    using no_data_message_not_in_body [of "agents st"] no_data_message_not_fixed
    by simp
  ultimately show ?thesis
    using p k f by blast
qed

lemma display_agents_path_simps:
  "parse_readme_path (Text content) = parse_readme (Some content)"
  "display_agents_path (Text content) = display_agents (Some content)"
  "parse_readme_path Absent = parse_readme None"
  "display_agents_path Absent = display_agents None"
  by (simp_all add: parse_readme_path_def display_agents_path_def display_agents_def)

text \<open>
  C9, as the specification states it, fails. A file that exists and whose bytes do not
  decode is an existing input file; for it \<^verbatim>\<open>f.read()\<close> raises
  \<^verbatim>\<open>UnicodeDecodeError\<close>, the exception leaves \<^verbatim>\<open>display_agents\<close>, and neither the
  title banner nor anything else is printed.
\<close>

theorem undecodable_file_prints_nothing:
  "display_agents_path (Unreadable UnicodeDecodeError) = Inl UnicodeDecodeError"
  by (simp add: display_agents_path_def parse_readme_path_def)

text \<open>
  C9, amended. For every existing file that can be opened and read as text, the empty
  one included, \<^verbatim>\<open>parse_readme\<close> returns a dictionary with the nine keys, which is
  not false in the test of line 47, and \<^verbatim>\<open>display_agents\<close> prints, in this order:
  the title line and a line of 80 "="; for each category that has entries the line
  "### " with its name, a line of 40 "-" and the lines of its entries; the closing line
  of 80 "="; the two usage lines; the model distribution heading with its three lines;
  and an empty line. The message "Unable to load agent information." is not among the
  printed strings.
\<close>

theorem readable_file_full_output:
  "\<exists>d. parse_readme_path (Text content) = Inr (Some d) \<and> keys d = categories
       \<and> \<not> falsy (Some d)
       \<and> display_agents_path (Text content)
           = Inr ([ [10, 128218] @ ascii '' Available Claude Code Agents (75 total)'' @ [10],
                   replicate 80 (of_char (CHR ''=''))]
                  @ concat (map (\<lambda>(category, agent_list).
                              if agent_list \<noteq> [] then
                                [ [10] @ ascii ''### '' @ category,
                                 replicate 40 (of_char (CHR ''-''))]
                                @ concat (map print_entry agent_list)
                              else []) d)
                  @ [ [10] @ replicate 80 (of_char (CHR ''='')),
                     [10, 128161]
                       @ ascii '' Usage: Mention an agent by name or let Claude auto-select based on context'',
                     ascii ''   Example: '' @ [39]
                       @ ascii ''Use code-reviewer to check my changes'' @ [39],
                     [10, 128230] @ ascii '' Model Distribution:'',
                     ascii ''   '' @ [8226] @ ascii '' '' @ [128640]
                       @ ascii '' Haiku (fast): 16 agents'',
                     ascii ''   '' @ [8226] @ ascii '' '' @ [9889]
                       @ ascii '' Sonnet (balanced): 44 agents'',
                     ascii ''   '' @ [8226] @ ascii '' '' @ [129504]
                       @ ascii '' Opus (powerful): 15 agents'',
                     [] ])
       \<and> display_agents (Some content) = display_agents_path (Text content)
       \<and> (case display_agents_path (Text content) of
            Inl err \<Rightarrow> False
          | Inr printed \<Rightarrow> ascii ''Unable to load agent information.'' \<notin> set printed)"
proof -
  obtain d where d: "parse_readme (Some content) = Inr (Some d)" "keys d = categories"
    "\<not> falsy (Some d)"
    "display_agents (Some content)
       = Inr (title_banner @ concat (map print_category d) @ trailer)"
    "no_data_message \<notin> set (title_banner @ concat (map print_category d) @ trailer)"
    using display_agents_existing [of content] by blast
  have t: "title_banner
             = [ [10, 128218] @ ascii '' Available Claude Code Agents (75 total)'' @ [10],
                replicate 80 (of_char (CHR ''=''))]"
    by (simp add: title_banner_def newline_def)
  have c: "print_category
             = (\<lambda>(category, agent_list).
                  if agent_list \<noteq> [] then
                    [ [10] @ ascii ''### '' @ category, replicate 40 (of_char (CHR ''-''))]
                    @ concat (map print_entry agent_list)
                  else [])"
    by (rule ext) (simp add: print_category_def newline_def split: prod.splits)
  have r: "trailer
             = [ [10] @ replicate 80 (of_char (CHR ''='')),
                [10, 128161]
                  @ ascii '' Usage: Mention an agent by name or let Claude auto-select based on context'',
                ascii ''   Example: '' @ [39]
                  @ ascii ''Use code-reviewer to check my changes'' @ [39],
                [10, 128230] @ ascii '' Model Distribution:'',
                ascii ''   '' @ [8226] @ ascii '' '' @ [128640]
                  @ ascii '' Haiku (fast): 16 agents'',
                ascii ''   '' @ [8226] @ ascii '' '' @ [9889]
                  @ ascii '' Sonnet (balanced): 44 agents'',
                ascii ''   '' @ [8226] @ ascii '' '' @ [129504]
                  @ ascii '' Opus (powerful): 15 agents'',
                [] ]"
    by (simp add: trailer_def newline_def bullet_def rocket_def)
  have 1: "parse_readme_path (Text content) = Inr (Some d)"
    using d(1) by (simp add: display_agents_path_simps)
  have 2: "display_agents_path (Text content)
             = Inr (title_banner @ concat (map print_category d) @ trailer)"
    using d(4) by (simp add: display_agents_path_simps)
  have 3: "display_agents (Some content) = display_agents_path (Text content)"
    by (simp add: display_agents_path_simps)
  have 4: "(case display_agents_path (Text content) of
              Inl err \<Rightarrow> False
            | Inr printed \<Rightarrow> ascii ''Unable to load agent information.'' \<notin> set printed)"
    using d(5) unfolding 2 by (simp add: no_data_message_def)
  show ?thesis
    using 1 d(2,3) 2 [unfolded t c r] 3 4 by blast
qed

theorem readable_file_full_output_witness:
  "display_agents_path (Text [])
     = Inr [ [10, 128218] @ ascii '' Available Claude Code Agents (75 total)'' @ [10],
            replicate 80 (of_char (CHR ''='')),
            [10] @ replicate 80 (of_char (CHR ''='')),
            [10, 128161]
              @ ascii '' Usage: Mention an agent by name or let Claude auto-select based on context'',
            ascii ''   Example: '' @ [39]
              @ ascii ''Use code-reviewer to check my changes'' @ [39],
            [10, 128230] @ ascii '' Model Distribution:'',
            ascii ''   '' @ [8226] @ ascii '' '' @ [128640] @ ascii '' Haiku (fast): 16 agents'',
            ascii ''   '' @ [8226] @ ascii '' '' @ [9889] @ ascii '' Sonnet (balanced): 44 agents'',
            ascii ''   '' @ [8226] @ ascii '' '' @ [129504] @ ascii '' Opus (powerful): 15 agents'',
            [] ]
   \<and> parse_readme_path (Text []) = Inr (Some agents_literal)"
proof -
  let ?body = "\<lambda>d. concat (map (\<lambda>(category, agent_list).
                              if agent_list \<noteq> [] then
                                [ [10] @ ascii ''### '' @ category,
                                 replicate 40 (of_char (CHR ''-''))]
                                @ concat (map print_entry agent_list)
                              else []) d)"
  from readable_file_full_output [of "[]"]
  obtain d where d: "parse_readme_path (Text []) = Inr (Some d)"
    "display_agents_path (Text [])
           = Inr ([ [10, 128218] @ ascii '' Available Claude Code Agents (75 total)'' @ [10],
                   replicate 80 (of_char (CHR ''=''))]
                  @ ?body d
                  @ [ [10] @ replicate 80 (of_char (CHR ''='')),
                     [10, 128161]
                       @ ascii '' Usage: Mention an agent by name or let Claude auto-select based on context'',
                     ascii ''   Example: '' @ [39]
                       @ ascii ''Use code-reviewer to check my changes'' @ [39],
                     [10, 128230] @ ascii '' Model Distribution:'',
                     ascii ''   '' @ [8226] @ ascii '' '' @ [128640]
                       @ ascii '' Haiku (fast): 16 agents'',
                     ascii ''   '' @ [8226] @ ascii '' '' @ [9889]
                       @ ascii '' Sonnet (balanced): 44 agents'',
                     ascii ''   '' @ [8226] @ ascii '' '' @ [129504]
                       @ ascii '' Opus (powerful): 15 agents'',
                     [] ])"
    by blast
  have "parse_readme_path (Text []) = Inr (Some agents_literal)"
    by code_simp
  with d(1) have e: "d = agents_literal"
    by simp
  have "?body agents_literal = []"
    by (simp add: agents_literal_def)
  with d(2) e have "display_agents_path (Text [])
           = Inr ([ [10, 128218] @ ascii '' Available Claude Code Agents (75 total)'' @ [10],
                   replicate 80 (of_char (CHR ''=''))]
                  @ []
                  @ [ [10] @ replicate 80 (of_char (CHR ''='')),
                     [10, 128161]
                       @ ascii '' Usage: Mention an agent by name or let Claude auto-select based on context'',
                     ascii ''   Example: '' @ [39]
                       @ ascii ''Use code-reviewer to check my changes'' @ [39],
                     [10, 128230] @ ascii '' Model Distribution:'',
                     ascii ''   '' @ [8226] @ ascii '' '' @ [128640]
                       @ ascii '' Haiku (fast): 16 agents'',
                     ascii ''   '' @ [8226] @ ascii '' '' @ [9889]
                       @ ascii '' Sonnet (balanced): 44 agents'',
                     ascii ''   '' @ [8226] @ ascii '' '' @ [129504]
                       @ ascii '' Opus (powerful): 15 agents'',
                     [] ])"
    by (simp only:)
  then show ?thesis
    using \<open>parse_readme_path (Text []) = Inr (Some agents_literal)\<close> by simp
qed

section \<open>Two calls, one after the other\<close>

lemma catalog_at_frame:
  "(\<And>a. a \<in> snd ` set d \<Longrightarrow> objects h' a = objects h a) \<Longrightarrow> catalog_at h' d = catalog_at h d"
  by (force simp: catalog_at_def)

lemma keys_catalog_at: "keys (catalog_at h d) = map fst d"
  by (auto simp: keys_def catalog_at_def)

lemma dict_append_heap:
  assumes "distinct (map snd d)"
  shows "dict_append (catalog_at h d) k e =
           (case map_of d k of
              None \<Rightarrow> Inl KeyError
            | Some a \<Rightarrow> Inr (catalog_at (list_append h a e) d))"
  using assms
proof (induction d)
  case Nil
  then show ?case by (simp add: catalog_at_def)
next
  case (Cons p d)
  obtain k' a' where p: "p = (k', a')" by (cases p)
  have fresh: "a' \<notin> snd ` set d" and dist: "distinct (map snd d)"
    using Cons.prems p by auto
  show ?case
  proof (cases "k' = k")
    case True
    have "catalog_at (list_append h a' e) d = catalog_at h d"
      using fresh by (intro catalog_at_frame) (auto simp: list_append_def)
    with True p show ?thesis
      by (simp add: catalog_at_def list_append_def)
  next
    case False
    show ?thesis
    proof (cases "map_of d k")
      case None
      with False p Cons.IH [OF dist] show ?thesis
        by (simp add: catalog_at_def)
    next
      case (Some a)
      then have "a \<in> snd ` set d"
        by (metis map_of_SomeD image_eqI snd_conv)
      with fresh have "a \<noteq> a'" by auto
      with False p Some Cons.IH [OF dist] show ?thesis
        by (simp add: catalog_at_def list_append_def)
    qed
  qed
qed

lemma process_line_h_refines:
  assumes "distinct (map snd (agents_ref st))"
  shows "(case process_line_h st line of
            Inl err \<Rightarrow> process_line (abstract st) line = Inl err
          | Inr st' \<Rightarrow> process_line (abstract st) line = Inr (abstract st')
              \<and> agents_ref st' = agents_ref st
              \<and> next_free (store st') = next_free (store st)
              \<and> (\<forall>a. a \<notin> snd ` set (agents_ref st)
                     \<longrightarrow> objects (store st') a = objects (store st) a))"
proof -
  have ap: "dict_append (catalog_at (store st) (agents_ref st)) k e =
           (case map_of (agents_ref st) k of
              None \<Rightarrow> Inl KeyError
            | Some a \<Rightarrow> Inr (catalog_at (list_append (store st) a e) (agents_ref st)))" for k e
    by (rule dict_append_heap [OF assms])
  have in_d: "a \<in> snd ` set (agents_ref st)" if "map_of (agents_ref st) k = Some a" for k a
    using that by (metis map_of_SomeD image_eqI snd_conv)
  show ?thesis
    unfolding process_line_h_def process_line_def
    using in_d
    by (auto simp: abstract_def keys_catalog_at ap dict_item_def list_append_def
             split: option.splits sum.splits)
qed

lemma scan_lines_h_refines:
  assumes "distinct (map snd (agents_ref st))"
  shows "(case scan_lines_h st ls of
            Inl err \<Rightarrow> scan_lines (abstract st) ls = Inl err
          | Inr st' \<Rightarrow> scan_lines (abstract st) ls = Inr (abstract st')
              \<and> agents_ref st' = agents_ref st
              \<and> next_free (store st') = next_free (store st)
              \<and> (\<forall>a. a \<notin> snd ` set (agents_ref st)
                     \<longrightarrow> objects (store st') a = objects (store st) a))"
  using assms
proof (induction ls arbitrary: st)
  case Nil
  then show ?case by simp
next
  case (Cons l ls)
  show ?case
  proof (cases "process_line_h st l")
    case (Inl err)
    with process_line_h_refines [OF Cons.prems, of l] show ?thesis by simp
  next
    case (Inr st1)
    with process_line_h_refines [OF Cons.prems, of l]
    have 1: "process_line (abstract st) l = Inr (abstract st1)"
      "agents_ref st1 = agents_ref st" "next_free (store st1) = next_free (store st)"
      "\<forall>a. a \<notin> snd ` set (agents_ref st) \<longrightarrow> objects (store st1) a = objects (store st) a"
      by simp_all
    have "distinct (map snd (agents_ref st1))"
      using Cons.prems 1(2) by simp
    from Cons.IH [OF this] Inr 1 show ?thesis
      by (auto split: sum.splits)
  qed
qed

lemma new_dict_fresh:
  assumes "new_dict ks h = (d, h')"
  shows "map fst d = ks \<and> map snd d = [next_free h ..< next_free h + length ks]
         \<and> next_free h' = next_free h + length ks
         \<and> (\<forall>a < next_free h. objects h' a = objects h a)
         \<and> (\<forall>a \<in> snd ` set d. objects h' a = [])"
  using assms
proof (induction ks arbitrary: h d h')
  case Nil
  then show ?case by simp
next
  case (Cons k ks)
  let ?h1 = "\<lparr>objects = (objects h)(next_free h := []), next_free = Suc (next_free h)\<rparr>"
  obtain d2 h2 where r: "new_dict ks ?h1 = (d2, h2)"
    by (cases "new_dict ks ?h1")
  with Cons.prems have d: "d = (k, next_free h) # d2" and h': "h' = h2"
    by (simp_all add: new_list_def)
  from Cons.IH [OF r]
  have ih: "map fst d2 = ks" "map snd d2 = [Suc (next_free h) ..< Suc (next_free h) + length ks]"
    "next_free h2 = Suc (next_free h) + length ks"
    "\<forall>a < Suc (next_free h). objects h2 a = objects ?h1 a"
    "\<forall>a \<in> snd ` set d2. objects h2 a = []"
    by simp_all
  have "next_free h < next_free h + length (k # ks)"
    by simp
  from upt_conv_Cons [OF this]
  have "[next_free h ..< next_free h + length (k # ks)]
          = next_free h # [Suc (next_free h) ..< next_free h + length (k # ks)]" .
  moreover have "next_free h + length (k # ks) = Suc (next_free h) + length ks"
    by simp
  ultimately have "[next_free h ..< next_free h + length (k # ks)]
          = next_free h # [Suc (next_free h) ..< Suc (next_free h) + length ks]"
    by (simp only:)
  then have "map snd d = [next_free h ..< next_free h + length (k # ks)]"
    unfolding d using ih(2) by (simp only: list.map snd_conv)
  moreover have "objects h' (next_free h) = []"
    using ih(4) h' by simp
  moreover have "\<forall>a < next_free h. objects h' a = objects h a"
    using ih(4) h' by simp
  ultimately show ?case
    using d h' ih(1,3,5) by auto
qed

lemma agents_literal_empty_lists:
  "map (\<lambda>k. (k, [])) (keys agents_literal) = agents_literal"
  by (simp add: agents_literal_def keys_def)

lemma catalog_at_new_dict:
  assumes "new_dict ks h = (d, h')"
  shows "catalog_at h' d = map (\<lambda>k. (k, [])) ks"
proof -
  from new_dict_fresh [OF assms]
  have "map fst d = ks" "\<forall>a \<in> snd ` set d. objects h' a = []"
    by simp_all
  then have "map (\<lambda>(k, a). (k, objects h' a)) d = map (\<lambda>k. (k, [])) (map fst d)"
    by (auto simp: split_beta)
  then show ?thesis
    using \<open>map fst d = ks\<close> by (simp add: catalog_at_def)
qed

lemma parse_readme_h_run:
  "\<exists>r h1. parse_readme_h h0 file = Inr (r, h1)
     \<and> parse_readme file = Inr (map_option (catalog_at h1) r)
     \<and> (\<forall>a < next_free h0. objects h1 a = objects h0 a)
     \<and> (\<forall>d \<in> set_option r. \<forall>a \<in> snd ` set d. a < next_free h1)"
proof (cases "file")
  case None
  then show ?thesis
    by (simp add: parse_readme_h_def parse_readme_def)
next
  case (Some content)
  obtain d h' where nd: "new_dict (keys agents_literal) h0 = (d, h')"
    by (cases "new_dict (keys agents_literal) h0")
  let ?st = "\<lparr>store = h', agents_ref = d, current_category_h = None\<rparr>"
  let ?ls = "py_split newline content"
  from new_dict_fresh [OF nd]
  have fr: "map snd d = [next_free h0 ..< next_free h0 + length (keys agents_literal)]"
    "next_free h' = next_free h0 + length (keys agents_literal)"
    "\<forall>a < next_free h0. objects h' a = objects h0 a"
    by simp_all
  have dist: "distinct (map snd (agents_ref ?st))"
    using fr(1) by simp
  have init: "abstract ?st = initial_state"
    using catalog_at_new_dict [OF nd]
    by (simp add: abstract_def initial_state_def agents_literal_empty_lists)
  obtain st where pure: "scan_lines initial_state ?ls = Inr st"
    using scan_lines_reachable by blast
  have ref: "(case scan_lines_h ?st ?ls of
            Inl err \<Rightarrow> scan_lines initial_state ?ls = Inl err
          | Inr st' \<Rightarrow> scan_lines initial_state ?ls = Inr (abstract st')
              \<and> agents_ref st' = agents_ref ?st
              \<and> next_free (store st') = next_free (store ?st)
              \<and> (\<forall>a. a \<notin> snd ` set (agents_ref ?st)
                     \<longrightarrow> objects (store st') a = objects (store ?st) a))"
    using scan_lines_h_refines [OF dist, of ?ls] unfolding init .
  obtain st1 where run: "scan_lines_h ?st ?ls = Inr st1" "st = abstract st1"
    "agents_ref st1 = d" "next_free (store st1) = next_free h'"
    "\<forall>a. a \<notin> snd ` set d \<longrightarrow> objects (store st1) a = objects h' a"
  proof (cases "scan_lines_h ?st ?ls")
    case (Inl err)
    with ref pure show ?thesis by simp
  next
    case (Inr st1)
    with ref pure that show ?thesis by simp
  qed
  have 1: "parse_readme_h h0 file = Inr (Some d, store st1)"
    using Some nd run(1,3) by (simp add: parse_readme_h_def)
  have 2: "parse_readme file = Inr (Some (catalog_at (store st1) d))"
    using Some pure run(2,3) by (simp add: parse_readme_def abstract_def)
  have in_d: "next_free h0 \<le> a \<and> a < next_free (store st1)" if "a \<in> snd ` set d" for a
  proof -
    from that have "a \<in> set (map snd d)" by simp
    then show ?thesis
      unfolding fr(1) using run(4) fr(2) by simp
  qed
  have "objects (store st1) a = objects h0 a" if "a < next_free h0" for a
  proof -
    have "a \<notin> snd ` set d"
      using in_d [of a] that by auto
    then have "objects (store st1) a = objects h' a"
      using run(5) by blast
    then show ?thesis
      using fr(3) that by simp
  qed
  then have 3: "\<forall>a < next_free h0. objects (store st1) a = objects h0 a"
    by blast
  have 4: "\<forall>a \<in> snd ` set d. a < next_free (store st1)"
    using in_d by blast
  show ?thesis
    using 1 2 3 4 by simp
qed

text \<open>
  C8. Two calls of \<^verbatim>\<open>parse_readme\<close>, one after the other in the same process,
  on the same file: whatever objects earlier calls have left in the store, both calls
  return, the catalog that the second returns is equal to the one that the first
  returned, the second call leaves the catalog of the first as it was, and that catalog
  is the value \<open>parse_readme\<close> of the file, which the content alone determines.
\<close>

theorem two_runs_identical:
  "\<exists>r1 h1 r2 h2. parse_readme_h h0 file = Inr (r1, h1)
     \<and> parse_readme_h h1 file = Inr (r2, h2)
     \<and> map_option (catalog_at h2) r2 = map_option (catalog_at h1) r1
     \<and> map_option (catalog_at h2) r1 = map_option (catalog_at h1) r1
     \<and> parse_readme file = Inr (map_option (catalog_at h1) r1)"
proof -
  obtain r1 h1 where 1: "parse_readme_h h0 file = Inr (r1, h1)"
    "parse_readme file = Inr (map_option (catalog_at h1) r1)"
    "\<forall>d \<in> set_option r1. \<forall>a \<in> snd ` set d. a < next_free h1"
    using parse_readme_h_run [of h0 "file"] by blast
  obtain r2 h2 where 2: "parse_readme_h h1 file = Inr (r2, h2)"
    "parse_readme file = Inr (map_option (catalog_at h2) r2)"
    "\<forall>a < next_free h1. objects h2 a = objects h1 a"
    using parse_readme_h_run [of h1 "file"] by blast
  have same: "map_option (catalog_at h2) r2 = map_option (catalog_at h1) r1"
    using 1(2) 2(2) by simp
  have kept: "map_option (catalog_at h2) r1 = map_option (catalog_at h1) r1"
  proof (cases r1)
    case None
    then show ?thesis by simp
  next
    case (Some d)
    with 1(3) 2(3) have "catalog_at h2 d = catalog_at h1 d"
      by (intro catalog_at_frame) auto
    with Some show ?thesis by simp
  qed
  show ?thesis
    using 1(1,2) 2(1) same kept by blast
qed

end
